theory Spec2Isabelle
  imports Main "HOL-Library.Sublist"
begin

section \<open>Python string primitives used by generate\_cmake\_build.py\<close>

text \<open>
  A Python \<open>str\<close> is modelled as a \<open>string\<close> (a list of \<open>char\<close>). HOL characters
  have 256 values, so the model covers the texts whose code points are below 256; the two
  Unicode line separators U+2028 and U+2029 and the Unicode spaces above U+00FF are outside
  the model.
\<close>

text \<open>The characters at which \<open>str.splitlines\<close> breaks a line (code points below 256).\<close>

definition is_linebreak :: "char \<Rightarrow> bool" where
  "is_linebreak c \<longleftrightarrow>
     c = CHR 0x0A \<or> c = CHR 0x0B \<or> c = CHR 0x0C \<or> c = CHR 0x0D \<or>
     c = CHR 0x1C \<or> c = CHR 0x1D \<or> c = CHR 0x1E \<or> c = CHR 0x85"

text \<open>The characters for which \<open>str.isspace\<close> holds (code points below 256).\<close>

definition isspace :: "char \<Rightarrow> bool" where
  "isspace c \<longleftrightarrow>
     c = CHR 0x09 \<or> c = CHR 0x0A \<or> c = CHR 0x0B \<or> c = CHR 0x0C \<or> c = CHR 0x0D \<or>
     c = CHR 0x1C \<or> c = CHR 0x1D \<or> c = CHR 0x1E \<or> c = CHR 0x1F \<or>
     c = CHR 0x20 \<or> c = CHR 0x85 \<or> c = CHR 0xA0"

text \<open>
  \<open>s.splitlines()\<close>: scan to the next line break, emit the line without the break, treat
  a carriage return followed by a line feed as one break, and emit no empty line after a
  final break.
\<close>

function splitlines :: "string \<Rightarrow> string list" where
  "splitlines s =
     (if s = [] then []
      else
        (case dropWhile (\<lambda>c. \<not> is_linebreak c) s of
           [] \<Rightarrow> [s]
         | c # rest \<Rightarrow>
             takeWhile (\<lambda>c. \<not> is_linebreak c) s #
               splitlines (if c = CHR 0x0D \<and> take 1 rest = [CHR 0x0A] then drop 1 rest else rest)))"
  by pat_completeness auto
termination
proof (relation "measure length", goal_cases)
  case 1
  show ?case by simp
next
  case (2 s c rest)
  have "length (dropWhile (\<lambda>c. \<not> is_linebreak c) s) \<le> length s"
    by (rule length_dropWhile_le)
  with 2 show ?case by auto
qed

declare splitlines.simps [simp del]

text \<open>\<open>s.split()\<close>: the maximal runs of characters that are not whitespace, in order.\<close>

function str_split :: "string \<Rightarrow> string list" where
  "str_split s =
     (case dropWhile isspace s of
        [] \<Rightarrow> []
      | c # rest \<Rightarrow>
          takeWhile (\<lambda>c. \<not> isspace c) (c # rest) #
            str_split (dropWhile (\<lambda>c. \<not> isspace c) (c # rest)))"
  by pat_completeness auto
termination
proof (relation "measure length", goal_cases)
  case 1
  show ?case by simp
next
  case (2 s c rest)
  have a: "length (dropWhile isspace s) \<le> length s"
    by (rule length_dropWhile_le)
  have b: "length (dropWhile (\<lambda>c. \<not> isspace c) (c # rest)) \<le> length (c # rest)"
    by (rule length_dropWhile_le)
  from 2 have "\<not> isspace c"
    by (metis hd_dropWhile list.sel(1) list.distinct(1))
  then have "length (dropWhile (\<lambda>c. \<not> isspace c) (c # rest)) \<le> length rest"
    using length_dropWhile_le [of "\<lambda>c. \<not> isspace c" rest] by simp
  with a 2 show ?case by simp
qed

declare str_split.simps [simp del]

text \<open>\<open>s.split(sep)\<close> for a one-character separator: never empty, keeps empty fields.\<close>

fun split_char :: "char \<Rightarrow> string \<Rightarrow> string list" where
  "split_char sep [] = [[]]"
| "split_char sep (c # cs) =
     (if c = sep then [] # split_char sep cs
      else (case split_char sep cs of
              [] \<Rightarrow> [[c]]
            | w # ws \<Rightarrow> (c # w) # ws))"

text \<open>\<open>sep.join(xs)\<close>.\<close>

fun str_join :: "string \<Rightarrow> string list \<Rightarrow> string" where
  "str_join sep [] = []"
| "str_join sep [x] = x"
| "str_join sep (x # y # ys) = x @ sep @ str_join sep (y # ys)"

text \<open>
  \<open>s.find(sub)\<close>: the least index at which \<open>sub\<close> starts in \<open>s\<close>; \<open>None\<close> stands for
  Python's \<open>-1\<close>.
\<close>

fun str_find :: "string \<Rightarrow> string \<Rightarrow> nat option" where
  "str_find [] sub = (if sub = [] then Some 0 else None)"
| "str_find (c # cs) sub =
     (if prefix sub (c # cs) then Some 0 else map_option Suc (str_find cs sub))"

text \<open>\<open>s.endswith(t)\<close>.\<close>

definition endswith :: "string \<Rightarrow> string \<Rightarrow> bool" where
  "endswith s t \<longleftrightarrow> suffix t s"

section \<open>The comment stripper: purge\_comments\<close>

text \<open>
  First loop of \<open>purge_comments\<close>: each line is cut at its first \<open>//\<close> and written back
  followed by a line feed.
\<close>

definition purge_line :: "string \<Rightarrow> string" where
  "purge_line line =
     (case str_find line ''//'' of
        None \<Rightarrow> line @ [CHR 0x0A]
      | Some pos \<Rightarrow> take pos line @ [CHR 0x0A])"

definition purge_line_comments :: "string \<Rightarrow> string" where
  "purge_line_comments file_contents =
     foldl (\<lambda>outstr line. outstr @ purge_line line) [] (splitlines file_contents)"

text \<open>
  Second loop of \<open>purge_comments\<close>, over the index \<open>i\<close> of \<open>outstr\<close>, with the flag
  \<open>recording\<close> and the text \<open>outstr2\<close> built so far. The slices \<open>outstr[i:i+2]\<close> and
  \<open>outstr[i-1:i+1]\<close> are \<open>take 2 (drop i outstr)\<close> and \<open>take 2 (drop (i - 1) outstr)\<close>.
\<close>

function purge_block_loop :: "string \<Rightarrow> nat \<Rightarrow> bool \<Rightarrow> string \<Rightarrow> string" where
  "purge_block_loop outstr i recording outstr2 =
     (if i < length outstr then
        (if i + 1 < length outstr \<and> recording \<and> take 2 (drop i outstr) = ''/*''
           then purge_block_loop outstr (i + 1) False outstr2
         else if 0 < i \<and> \<not> recording \<and> take 2 (drop (i - 1) outstr) = ''*/''
           then purge_block_loop outstr (i + 1) True outstr2
         else if recording
           then purge_block_loop outstr (i + 1) recording (outstr2 @ [outstr ! i])
         else purge_block_loop outstr (i + 1) recording outstr2)
      else outstr2)"
  by pat_completeness auto
termination
  by (relation "measure (\<lambda>(outstr, i, recording, outstr2). length outstr - i)") auto

declare purge_block_loop.simps [simp del]

definition purge_comments :: "string \<Rightarrow> string" where
  "purge_comments file_contents =
     purge_block_loop (purge_line_comments file_contents) 0 True []"

section \<open>The API declaration detector: has\_api\_definition\<close>

text \<open>
  \<open>has_api_definition filename file_contents\<close>: the second argument is the text that the
  source reads from the file \<open>concatname\<close>. A failing read is not modelled.
\<close>

definition has_api_definition :: "string \<Rightarrow> string \<Rightarrow> bool" where
  "has_api_definition filename file_contents =
     (let filename_base = hd (split_char CHR ''.'' filename) in
      if str_find file_contents (filename_base @ ''::'' @ ''get_api_definition'') = None
        then False
      else
        (let file_contents2 = str_join '' '' (str_split (purge_comments file_contents)) in
         if str_find file_contents2 (filename_base @ ''::'' @ ''get_api_definition'') = None
           then False
         else True))"

section \<open>The path-to-API-name mapper: apiname\_from\_filename\<close>

text \<open>A failed \<open>assert\<close> and an index out of range end the run; they are error values here.\<close>

datatype error = AssertionError | IndexError

function apiname_loop :: "string list \<Rightarrow> nat \<Rightarrow> string \<Rightarrow> error + string" where
  "apiname_loop fname_entries i newname =
     (if i < length fname_entries then
        (if i = 0 then
           apiname_loop fname_entries (i + 1) (newname @ fname_entries ! i)
         else if i = 2 then
           apiname_loop fname_entries (i + 1)
             (newname @ ''/'' @ fname_entries ! i @ ''_api/auto_generated_api'')
         else if i = length fname_entries - 1 then
           (let entrysplit = split_char CHR ''.'' (fname_entries ! i) in
            if length entrysplit \<noteq> 2 then Inl AssertionError
            else apiname_loop fname_entries (i + 1) (newname @ ''/'' @ entrysplit ! 0 @ ''_API''))
         else
           apiname_loop fname_entries (i + 1) (newname @ ''/'' @ fname_entries ! i))
      else Inr newname)"
  by pat_completeness auto
termination
  by (relation "measure (\<lambda>(fname_entries, i, newname). length fname_entries - i)") auto

declare apiname_loop.simps [simp del]

definition apiname_from_filename :: "string \<Rightarrow> error + string" where
  "apiname_from_filename fname =
     (let fname_entries = split_char CHR ''/'' fname in
      if \<not> 3 < length fname_entries then Inl AssertionError
      else apiname_loop fname_entries 0 [])"

section \<open>The directory walker: get\_all\_cc\_and\_hh\_files\_in\_dir\_and\_subdirs\<close>

text \<open>
  What a path names: a regular file with its text, a directory with its entries in the order
  \<open>listdir\<close> returns them, or neither (\<open>path.isfile\<close> and \<open>path.isdir\<close> both false, which
  includes a path that does not exist). A directory tree is finite, so a walk ends; cyclic
  links are outside the model.
\<close>

datatype node = File string | Dir "(string \<times> node) list" | Other

text \<open>
  The walker returns a pair of lists when \<open>skip_apps\<close> is set and one list otherwise; the
  model always returns a pair, whose second list is empty when \<open>skip_apps\<close> is unset.
  The argument \<open>node\<close> is what the path \<open>dirname\<close> names.
\<close>

definition walk_file :: "string \<Rightarrow> string \<Rightarrow> bool \<Rightarrow> string \<Rightarrow> error + (string list \<times> string list)" where
  "walk_file fname concatname skip_apps file_contents =
     (let outlist = (if endswith fname ''.cc'' \<or> endswith fname ''.hh'' then [concatname] else []) in
      if skip_apps \<and> endswith fname ''.cc'' \<and> concatname \<noteq> ''../src/base/MasalaObject.cc''
         \<and> has_api_definition fname file_contents
      then
        (case apiname_from_filename concatname of
           Inl e \<Rightarrow> Inl e
         | Inr apiname \<Rightarrow>
             Inr (outlist, [apiname @ ''.cc'', apiname @ ''.hh'', apiname @ ''.fwd.hh'']))
      else Inr (outlist, []))"

definition is_skipped :: "string \<Rightarrow> string \<Rightarrow> bool \<Rightarrow> bool" where
  "is_skipped libname dirname skip_apps =
     (if skip_apps then
        endswith dirname (libname @ ''_apps'') \<or> endswith dirname (libname @ ''_apps/'')
      else
        endswith dirname (libname @ ''/auto_generated_api'') \<or>
        endswith dirname (libname @ ''/auto_generated_api/''))"

text \<open>
  One step of the walker's loop followed by the remaining steps: the first error ends the
  walk, otherwise the lists of the entry are extended by those of the later entries.
\<close>

definition extend_lists ::
  "error + (string list \<times> string list) \<Rightarrow> error + (string list \<times> string list) \<Rightarrow>
   error + (string list \<times> string list)" where
  "extend_lists r1 r2 =
     (case r1 of
        Inl e \<Rightarrow> Inl e
      | Inr (outlist, outlist_apis) \<Rightarrow>
          (case r2 of
             Inl e \<Rightarrow> Inl e
           | Inr (outlist2, outlist2_apis) \<Rightarrow>
               Inr (outlist @ outlist2, outlist_apis @ outlist2_apis)))"

fun get_all_cc_and_hh_files_in_dir_and_subdirs ::
      "string \<Rightarrow> string \<Rightarrow> bool \<Rightarrow> node \<Rightarrow> error + (string list \<times> string list)"
  and walk_entries ::
      "string \<Rightarrow> string \<Rightarrow> bool \<Rightarrow> (string \<times> node) list \<Rightarrow> error + (string list \<times> string list)"
where
  "get_all_cc_and_hh_files_in_dir_and_subdirs libname dirname skip_apps (Dir entries) =
     (if is_skipped libname dirname skip_apps then Inr ([], [])
      else walk_entries libname dirname skip_apps entries)"
| "get_all_cc_and_hh_files_in_dir_and_subdirs libname dirname skip_apps (File file_contents) =
     Inl AssertionError"
| "get_all_cc_and_hh_files_in_dir_and_subdirs libname dirname skip_apps Other =
     Inl AssertionError"
| "walk_entries libname dirname skip_apps [] = Inr ([], [])"
| "walk_entries libname dirname skip_apps ((fname, File file_contents) # rest) =
     extend_lists
       (walk_file fname (dirname @ ''/'' @ fname) skip_apps file_contents)
       (walk_entries libname dirname skip_apps rest)"
| "walk_entries libname dirname skip_apps ((fname, Dir sub) # rest) =
     extend_lists
       (get_all_cc_and_hh_files_in_dir_and_subdirs libname (dirname @ ''/'' @ fname) skip_apps
          (Dir sub))
       (walk_entries libname dirname skip_apps rest)"
| "walk_entries libname dirname skip_apps ((fname, Other) # rest) =
     walk_entries libname dirname skip_apps rest"

section \<open>The dependency reader: get\_library\_dependencies\<close>

text \<open>
  The loop \<open>for entry in dlist\<close> reads \<open>dlist\<close> by a running index \<open>i\<close> while its body
  removes from that same list: \<open>dlist.remove(entry)\<close> deletes the first element equal to
  \<open>entry\<close>, and the loop ends when the index reaches the current length. \<open>entry[0]\<close>
  raises on an empty entry.
\<close>

function remove_comment_entries :: "nat \<Rightarrow> string list \<Rightarrow> error + string list" where
  "remove_comment_entries i dlist =
     (if i < length dlist then
        (case dlist ! i of
           [] \<Rightarrow> Inl IndexError
         | c # cs \<Rightarrow>
             if c = CHR ''#'' then remove_comment_entries (i + 1) (remove1 (dlist ! i) dlist)
             else remove_comment_entries (i + 1) dlist)
      else Inr dlist)"
  by pat_completeness auto
termination
proof (relation "measure (\<lambda>(i, dlist). length dlist - i)", goal_cases)
  case 1
  show ?case by simp
next
  case (2 i dlist c cs)
  from 2(1) have "dlist ! i \<in> set dlist"
    by (rule nth_mem)
  then have "length (remove1 (dlist ! i) dlist) = length dlist - 1"
    by (simp add: length_remove1)
  with 2 show ?case by simp
next
  case (3 i dlist c cs)
  then show ?case by simp
qed

declare remove_comment_entries.simps [simp del]

text \<open>
  \<open>get_library_dependencies\<close> on the directory that \<open>dirname\<close> names. The file
  \<open>link_dependencies.txt\<close> is looked up among the entries of that directory.
\<close>

definition get_library_dependencies :: "node \<Rightarrow> error + string list" where
  "get_library_dependencies n =
     (case n of
        Dir entries \<Rightarrow>
          (case map_of entries ''link_dependencies.txt'' of
             Some (File file_contents) \<Rightarrow> remove_comment_entries 0 (str_split file_contents)
           | _ \<Rightarrow> Inr [])
      | _ \<Rightarrow> Inl AssertionError)"

section \<open>The script body: collecting the lists and writing the descriptors\<close>

definition NL :: string where "NL = [CHR 0x0A]"
definition TAB :: string where "TAB = [CHR 0x09]"
definition DQ :: string where "DQ = [CHR 0x22]"

definition isdir :: "node \<Rightarrow> bool" where
  "isdir n = (case n of Dir entries \<Rightarrow> True | _ \<Rightarrow> False)"

text \<open>\<open>path.basename\<close>: the text after the last slash.\<close>

definition basename :: "string \<Rightarrow> string" where
  "basename p = last (split_char CHR ''/'' p)"

text \<open>The lists gathered before anything is written (lines 174 to 192 of the script).\<close>

record collected =
  cclist :: "string list"
  api_cclist :: "string list"
  depend_list :: "string list"
  appslist :: "string list"
  testslist :: "string list"

text \<open>
  \<open>fs\<close> gives what each path names. The walks and the dependency reader run in the order
  of the script, and the first failure ends the run.
\<close>

definition collect ::
  "string \<Rightarrow> string \<Rightarrow> string option \<Rightarrow> (string \<Rightarrow> node) \<Rightarrow> error + collected" where
  "collect lib_name source_dir output_file_tests fs =
     (case get_all_cc_and_hh_files_in_dir_and_subdirs lib_name source_dir True (fs source_dir) of
        Inl e \<Rightarrow> Inl e
      | Inr (cclist1, api_cclist1) \<Rightarrow>
     (case get_all_cc_and_hh_files_in_dir_and_subdirs (lib_name @ ''_api'')
             (source_dir @ ''_api'') False (fs (source_dir @ ''_api'')) of
        Inl e \<Rightarrow> Inl e
      | Inr (api_files, unused1) \<Rightarrow>
     (case get_library_dependencies (fs source_dir) of
        Inl e \<Rightarrow> Inl e
      | Inr depend_list1 \<Rightarrow>
     (let appsdir = source_dir @ ''/'' @ lib_name @ ''_apps'' in
      case (if isdir (fs appsdir)
            then get_all_cc_and_hh_files_in_dir_and_subdirs lib_name appsdir False (fs appsdir)
            else Inr ([], [])) of
        Inl e \<Rightarrow> Inl e
      | Inr (appslist1, unused2) \<Rightarrow>
     (let testsdir = ''../tests/unit/'' @ lib_name;
          testlibname = lib_name @ ''_tests'' in
      case (if output_file_tests \<noteq> None
            then (if \<not> isdir (fs testsdir) then Inl AssertionError
                  else get_all_cc_and_hh_files_in_dir_and_subdirs testlibname testsdir False
                         (fs testsdir))
            else Inr ([], [])) of
        Inl e \<Rightarrow> Inl e
      | Inr (testslist1, unused3) \<Rightarrow>
          Inr \<lparr> cclist = cclist1, api_cclist = api_cclist1 @ api_files,
                depend_list = depend_list1, appslist = appslist1,
                testslist = testslist1 \<rparr>)))))"

text \<open>The text written to each descriptor.\<close>

definition public_links :: "string list \<Rightarrow> string" where
  "public_links deps = concat (map (\<lambda>dentry. NL @ TAB @ ''PUBLIC '' @ dentry) deps)"

definition library_text :: "string \<Rightarrow> collected \<Rightarrow> string" where
  "library_text lib_name c =
     (if 0 < length (cclist c) then
        ''ADD_LIBRARY('' @ lib_name @ '' SHARED'' @
        concat (map (\<lambda>entry. NL @ TAB @ entry) (cclist c)) @
        NL @ '')'' @ NL @
        ''SET_TARGET_PROPERTIES('' @ lib_name @ '' PROPERTIES VERSION ${PROJECT_VERSION})'' @ NL @
        (if 0 < length (depend_list c) then
           ''TARGET_LINK_LIBRARIES('' @ lib_name @ public_links (depend_list c) @
           NL @ TAB @ ''PRIVATE Threads::Threads'' @ NL @ '')'' @ NL
         else [])
      else []) @
     (if 0 < length (appslist c) then
        concat (map (\<lambda>app.
          (let appname = hd (split_char CHR ''.'' (basename app)) in
           NL @ ''ADD_EXECUTABLE( '' @ appname @ '' '' @ app @ '')'' @ NL @
           ''TARGET_LINK_LIBRARIES('' @ appname @ public_links (depend_list c) @
           NL @ TAB @ ''PRIVATE Threads::Threads'' @
           NL @ TAB @ ''PUBLIC '' @ lib_name @ NL @ '')'' @ NL)) (appslist c))
      else [])"

definition api_text :: "string \<Rightarrow> collected \<Rightarrow> string" where
  "api_text lib_name c =
     ''ADD_CUSTOM_COMMAND('' @ NL @
     TAB @ ''DEPENDS generate_'' @ lib_name @ ''_api POST_BUILD'' @ NL @
     TAB @ ''OUTPUT'' @ NL @
     concat (map (\<lambda>entry. TAB @ TAB @ entry @ NL) (api_cclist c)) @
     TAB @ ''COMMAND echo '' @ DQ @ ''Generating JSON description of core API.'' @ DQ @ NL @
     TAB @ ''COMMAND ./generate_'' @ lib_name @ ''_api'' @ NL @
     TAB @ ''COMMAND echo '' @ DQ @ ''Auto-generating core API C++ code.'' @ DQ @ NL @
     TAB @ ''COMMAND sh -c '' @ DQ @
       ''cd .. && python3 code_templates/generate_library_api.py core build/core_api.json && cd build'' @
       DQ @ NL @
     TAB @ ''VERBATIM'' @ NL @ '')'' @ NL @ NL @
     ''ADD_LIBRARY('' @ lib_name @ ''_api SHARED'' @
     concat (map (\<lambda>entry. NL @ TAB @ entry) (api_cclist c)) @
     NL @ '')'' @ NL @
     ''SET_TARGET_PROPERTIES('' @ lib_name @ ''_api PROPERTIES VERSION ${PROJECT_VERSION})'' @ NL @
     ''TARGET_LINK_LIBRARIES('' @ lib_name @ ''_api'' @
     NL @ TAB @ ''PUBLIC '' @ lib_name @
     (if 0 < length (depend_list c) then public_links (depend_list c) else []) @
     NL @ TAB @ ''PRIVATE Threads::Threads'' @
     NL @ '')'' @ NL"

definition tests_text :: "string \<Rightarrow> collected \<Rightarrow> string" where
  "tests_text lib_name c =
     (let testlibname = lib_name @ ''_tests'' in
      if 0 < length (testslist c) then
        ''ADD_EXECUTABLE('' @ testlibname @ '' '' @
        concat (map (\<lambda>entry. NL @ TAB @ entry) (testslist c)) @
        NL @ '')'' @ NL @
        ''SET_TARGET_PROPERTIES('' @ testlibname @ '' PROPERTIES VERSION ${PROJECT_VERSION})'' @ NL @
        ''TARGET_LINK_LIBRARIES('' @ testlibname @
        NL @ TAB @ ''PUBLIC '' @ lib_name @
        public_links (depend_list c) @
        NL @ TAB @ ''PRIVATE Threads::Threads'' @
        NL @ '')'' @ NL
      else [])"

text \<open>
  The three \<open>with open(..., 'w')\<close> blocks of the script (lines 194 to 259), in order: for
  each descriptor, \<open>None\<close> when the file is not opened, otherwise its path and the text it
  holds when it is closed. The library descriptor is opened before its list is looked at.
\<close>

record descriptors =
  library_descriptor :: "(string \<times> string) option"
  api_descriptor :: "(string \<times> string) option"
  tests_descriptor :: "(string \<times> string) option"

definition emit ::
  "string \<Rightarrow> string \<Rightarrow> string option \<Rightarrow> string option \<Rightarrow> collected \<Rightarrow> error + descriptors" where
  "emit lib_name output_file output_file_api output_file_tests c =
     (let d1 = Some (output_file, library_text lib_name c);
          d2 = (if 0 < length (api_cclist c) \<and> output_file_api \<noteq> None
                then Some (the output_file_api, api_text lib_name c) else None)
      in if 0 < length (testslist c) then
           (case output_file_tests of
              None \<Rightarrow> Inl AssertionError
            | Some f \<Rightarrow>
                Inr \<lparr> library_descriptor = d1, api_descriptor = d2,
                      tests_descriptor = Some (f, tests_text lib_name c) \<rparr>)
         else Inr \<lparr> library_descriptor = d1, api_descriptor = d2, tests_descriptor = None \<rparr>)"

text \<open>
  The script from the argument check on; \<open>argv\<close> includes the script's own name at index 0.
  Output to the terminal and failures of reading or writing a file are not modelled.
\<close>

definition main :: "string list \<Rightarrow> (string \<Rightarrow> node) \<Rightarrow> error + descriptors" where
  "main argv fs =
     (if length argv \<noteq> 6 then Inl AssertionError
      else
        (let lib_name = argv ! 1;
             source_dir = argv ! 2;
             output_file = argv ! 3;
             output_file_api = (if argv ! 4 = ''NONE'' then None else Some (argv ! 4));
             output_file_tests = (if argv ! 5 = ''NONE'' then None else Some (argv ! 5))
         in case collect lib_name source_dir output_file_tests fs of
              Inl e \<Rightarrow> Inl e
            | Inr c \<Rightarrow> emit lib_name output_file output_file_api output_file_tests c))"

section \<open>Auxiliary definitions for the proofs\<close>

text \<open>
  What the loop of \<open>apiname_from_filename\<close> appends to \<open>newname\<close> at index \<open>j\<close>.
\<close>

definition piece :: "string list \<Rightarrow> nat \<Rightarrow> string" where
  "piece es j =
     (if j = 0 then es ! j
      else if j = 2 then ''/'' @ es ! j @ ''_api/auto_generated_api''
      else if j = length es - 1 then ''/'' @ hd (split_char CHR ''.'' (es ! j)) @ ''_API''
      else ''/'' @ es ! j)"

text \<open>
  Four small file systems for the concrete runs below: a library directory with no files,
  a library with one source file that declares an API and a dependency file, a library
  whose API directory does not exist, and a library whose only file is an application.
\<close>

definition empty_library_fs :: "string \<Rightarrow> node" where
  "empty_library_fs p =
     (if p = ''../src/core'' then Dir []
      else if p = ''../src/core_api'' then Dir []
      else Other)"

definition small_library_fs :: "string \<Rightarrow> node" where
  "small_library_fs p =
     (if p = ''../src/core'' then
        Dir [(''sub'', Dir [(''Foo.cc'', File ''void Foo::get_api_definition() {}'')]),
             (''link_dependencies.txt'', File ''base'')]
      else if p = ''../src/core_api'' then Dir []
      else Other)"

definition apps_only_fs :: "string \<Rightarrow> node" where
  "apps_only_fs p =
     (if p = ''../src/core'' then
        Dir [(''core_apps'', Dir [(''tool.cc'', File ''int main() {}'')])]
      else if p = ''../src/core/core_apps'' then Dir [(''tool.cc'', File ''int main() {}'')]
      else if p = ''../src/core_api'' then Dir []
      else Other)"

definition no_api_dir_fs :: "string \<Rightarrow> node" where
  "no_api_dir_fs p =
     (if p = ''../src/core'' then Dir [(''plain.cc'', File ''int x;'')]
      else Other)"

text \<open>
  \<open>prune\<close> empties every directory of a tree that the walker, started at \<open>dirname\<close>,
  reaches under a name it skips; \<open>apps_tree\<close> is a small library tree with two such
  directories.
\<close>

fun prune :: "string \<Rightarrow> string \<Rightarrow> bool \<Rightarrow> node \<Rightarrow> node"
  and prune_entries :: "string \<Rightarrow> string \<Rightarrow> bool \<Rightarrow> (string \<times> node) list \<Rightarrow> (string \<times> node) list"
where
  "prune libname dirname skip_apps (Dir entries) =
     (if is_skipped libname dirname skip_apps then Dir []
      else Dir (prune_entries libname dirname skip_apps entries))"
| "prune libname dirname skip_apps (File file_contents) = File file_contents"
| "prune libname dirname skip_apps Other = Other"
| "prune_entries libname dirname skip_apps [] = []"
| "prune_entries libname dirname skip_apps ((fname, n) # rest) =
     (fname, prune libname (dirname @ ''/'' @ fname) skip_apps n) #
       prune_entries libname dirname skip_apps rest"

definition apps_tree :: node where
  "apps_tree =
     Dir [(''a.cc'', File ''int a;''),
          (''core_apps'', Dir [(''tool.cc'', File ''int main() {}'')]),
          (''notcore_apps'', Dir [(''other.hh'', File [])]),
          (''sub'', Dir [(''b.hh'', File [])])]"

text \<open>
  The second loop of \<open>purge_comments\<close> as a scan of the text itself: \<open>rec_on\<close> is the loop
  while \<open>recording\<close> is set, \<open>rec_off\<close> the loop while it is unset, with the character
  before the current one. \<open>line_body\<close> is what the first loop keeps of a line.
\<close>

fun rec_on :: "string \<Rightarrow> string"
  and rec_off :: "char \<Rightarrow> string \<Rightarrow> string"
where
  "rec_on [] = []"
| "rec_on (c # cs) =
     (if c = CHR ''/'' \<and> prefix ''*'' cs then rec_off c cs else c # rec_on cs)"
| "rec_off prev [] = []"
| "rec_off prev (c # cs) =
     (if prev = CHR ''*'' \<and> c = CHR ''/'' then rec_on cs else rec_off c cs)"

definition line_body :: "string \<Rightarrow> string" where
  "line_body l = butlast (purge_line l)"

text \<open>
  The notion of a comment in the words of the specification, for comparison with the
  detector: a line comment runs from \<open>//\<close> to the end of the line, a block comment from
  \<open>/*\<close> to the next \<open>*/\<close>, without nesting, and the text is read once from left to right.
  \<open>spec_comment_mask\<close> marks the characters inside a comment, \<open>spec_occurrences\<close> lists the
  indices at which a text occurs in another, and \<open>spec_every_occurrence_in_comment\<close> holds
  when every occurrence lies in a comment with all its characters. \<open>commented_then_spliced\<close>
  is a file text with the name once in a line comment and once more cut in two by an empty
  block comment; \<open>url_in_block_comment\<close> is a file text with a block comment that holds
  \<open>//\<close>, followed by the definition of the entry point.
\<close>

datatype scan_mode = InCode | InLineComment | InBlockComment

fun spec_comment_mask :: "scan_mode \<Rightarrow> string \<Rightarrow> bool list" where
  "spec_comment_mask m [] = []"
| "spec_comment_mask InCode [c] = [False]"
| "spec_comment_mask InCode (c1 # c2 # cs) =
     (if c1 = CHR ''/'' \<and> c2 = CHR ''/'' then True # True # spec_comment_mask InLineComment cs
      else if c1 = CHR ''/'' \<and> c2 = CHR ''*'' then True # True # spec_comment_mask InBlockComment cs
      else False # spec_comment_mask InCode (c2 # cs))"
| "spec_comment_mask InLineComment (c # cs) =
     (if c = CHR 0x0A then False # spec_comment_mask InCode cs
      else True # spec_comment_mask InLineComment cs)"
| "spec_comment_mask InBlockComment [c] = [True]"
| "spec_comment_mask InBlockComment (c1 # c2 # cs) =
     (if c1 = CHR ''*'' \<and> c2 = CHR ''/'' then True # True # spec_comment_mask InCode cs
      else True # spec_comment_mask InBlockComment (c2 # cs))"

definition spec_occurrences :: "string \<Rightarrow> string \<Rightarrow> nat list" where
  "spec_occurrences sub s = filter (\<lambda>i. prefix sub (drop i s)) [0..<Suc (length s)]"

definition spec_every_occurrence_in_comment :: "string \<Rightarrow> string \<Rightarrow> bool" where
  "spec_every_occurrence_in_comment sub s =
     list_all (\<lambda>i. list_all (\<lambda>b. b) (take (length sub) (drop i (spec_comment_mask InCode s))))
       (spec_occurrences sub s)"

definition commented_then_spliced :: string where
  "commented_then_spliced =
     ''// Foo::get_api_definition'' @ [CHR 0x0A] @ ''Foo::get_api_/**/definition''"

definition url_in_block_comment :: string where
  "url_in_block_comment =
     ''/* see http://x */'' @ [CHR 0x0A] @ ''void Foo::get_api_definition() {}'' @ [CHR 0x0A]"

section \<open>The path-to-API-name mapper\<close>

lemma split_char_nonempty: "split_char sep s \<noteq> []"
  by (induction s) (auto split: list.splits)

lemma length_split_char: "length (split_char sep s) = Suc (count_list s sep)"
  by (induction s) (auto split: list.splits simp: split_char_nonempty)

lemma hd_split_char: "hd (split_char sep s) = takeWhile (\<lambda>c. c \<noteq> sep) s"
  by (induction s) (auto split: list.splits simp: split_char_nonempty)

lemma str_join_Cons: "str_join sep (x # xs) = x @ concat (map (\<lambda>y. sep @ y) xs)"
  by (induction xs arbitrary: x) auto

lemma apiname_loop_ok:
  assumes "length (split_char CHR ''.'' (last es)) = 2"
  shows "i \<le> length es \<Longrightarrow>
         apiname_loop es i acc = Inr (acc @ concat (map (piece es) [i..<length es]))"
proof (induction "length es - i" arbitrary: i acc)
  case 0
  then have "\<not> i < length es" by simp
  then show ?case by (subst apiname_loop.simps) simp
next
  case (Suc k)
  then have lt: "i < length es" and k: "k = length es - Suc i" and le: "Suc i \<le> length es"
    by simp_all
  have es: "es \<noteq> []" using lt by auto
  have lastes: "es ! (length es - 1) = last es"
    using es by (simp add: last_conv_nth)
  have step: "[i..<length es] = i # [Suc i..<length es]"
    using lt by (simp add: upt_conv_Cons)
  have nth0: "(split_char CHR ''.'' (last es)) ! 0 = hd (split_char CHR ''.'' (last es))"
    by (simp add: hd_conv_nth split_char_nonempty)
  have ih: "apiname_loop es (i + 1) acc' =
            Inr (acc' @ concat (map (piece es) [i + 1..<length es]))" for acc'
    using Suc.hyps(1) [OF k le] by simp
  show ?case
    using lt assms lastes nth0
    by (subst apiname_loop.simps) (simp only: ih, simp add: step piece_def Let_def)
qed

lemma apiname_loop_fail:
  assumes "length (split_char CHR ''.'' (last es)) \<noteq> 2" and "3 < length es"
  shows "i < length es \<Longrightarrow> apiname_loop es i acc = Inl AssertionError"
proof (induction "length es - i" arbitrary: i acc)
  case 0
  then show ?case by simp
next
  case (Suc k)
  have es: "es \<noteq> []" using assms(2) by auto
  have lastes: "es ! (length es - 1) = last es"
    using es by (simp add: last_conv_nth)
  show ?case
  proof (cases "i = length es - 1")
    case True
    then have "i \<noteq> 0" "i \<noteq> 2" using assms(2) by simp_all
    then show ?thesis
      using True Suc.prems assms(1) lastes
      by (subst apiname_loop.simps) (simp add: Let_def)
  next
    case False
    then have lt: "Suc i < length es" using Suc.prems by simp
    have k: "k = length es - Suc i" using Suc.hyps(2) by simp
    have ih: "apiname_loop es (i + 1) acc' = Inl AssertionError" for acc'
      using Suc.hyps(1) [OF k lt] by simp
    show ?thesis
      by (subst apiname_loop.simps) (simp only: ih Let_def if_cancel, simp add: False Suc.prems)
  qed
qed

lemma pieces_join:
  assumes "3 < length es"
  shows "concat (map (piece es) [0..<length es]) =
         str_join ''/'' (es[2 := es ! 2 @ ''_api/auto_generated_api'',
                            length es - 1 := hd (split_char CHR ''.'' (last es)) @ ''_API''])"
proof -
  let ?n = "length es"
  let ?es' = "es[2 := es ! 2 @ ''_api/auto_generated_api'',
                 ?n - 1 := hd (split_char CHR ''.'' (last es)) @ ''_API'']"
  have len: "length ?es' = ?n" by simp
  have es: "es \<noteq> []" using assms by auto
  have lastes: "es ! (?n - 1) = last es"
    using es by (simp add: last_conv_nth)
  have es'_split: "?es' = ?es' ! 0 # map (\<lambda>j. ?es' ! j) [1..<?n]"
  proof -
    have "?es' = map (\<lambda>j. ?es' ! j) [0..<?n]"
      using len by (metis map_nth)
    also have "[0..<?n] = 0 # [1..<?n]"
      using es upt_rec [of 0 "?n"] by simp
    finally show ?thesis by simp
  qed
  have hd': "?es' ! 0 = es ! 0" using assms by simp
  have pieces: "map (piece es) [1..<?n] = map (\<lambda>j. ''/'' @ ?es' ! j) [1..<?n]"
  proof (rule map_cong [OF refl])
    fix j assume "j \<in> set [1..<?n]"
    then have j: "1 \<le> j" "j < ?n" by simp_all
    show "piece es j = ''/'' @ ?es' ! j"
      using j assms lastes by (auto simp: piece_def nth_list_update)
  qed
  have "concat (map (piece es) [0..<?n]) = piece es 0 @ concat (map (piece es) [1..<?n])"
    using es upt_rec [of 0 "?n"] by simp
  also have "\<dots> = es ! 0 @ concat (map (\<lambda>j. ''/'' @ ?es' ! j) [1..<?n])"
    by (simp only: pieces) (simp add: piece_def)
  also have "\<dots> = str_join ''/'' (?es' ! 0 # map (\<lambda>j. ?es' ! j) [1..<?n])"
    by (simp only: str_join_Cons hd') (simp add: comp_def)
  also have "\<dots> = str_join ''/'' ?es'"
    using es'_split by simp
  finally show ?thesis .
qed

lemma apiname_from_filename_rewrites_general:
  assumes "3 < length (split_char CHR ''/'' fname)"
      and "count_list (last (split_char CHR ''/'' fname)) CHR ''.'' = 1"
  shows "apiname_from_filename fname =
         Inr (concat (map (piece (split_char CHR ''/'' fname))
                [0..<length (split_char CHR ''/'' fname)]))"
proof -
  let ?es = "split_char CHR ''/'' fname"
  have two: "length (split_char CHR ''.'' (last ?es)) = 2"
    using assms(2) by (simp add: length_split_char)
  have "apiname_from_filename fname = apiname_loop ?es 0 []"
    using assms(1) by (simp add: apiname_from_filename_def Let_def)
  also have "\<dots> = Inr (concat (map (piece ?es) [0..<length ?es]))"
    using apiname_loop_ok [OF two, of 0 "[]"] by simp
  finally show ?thesis .
qed

text \<open>
  C2. A path with more than three slash-separated segments whose last segment holds exactly
  one dot is mapped to the same segments joined by slashes again, with segment 2 followed by
  \<open>_api/auto_generated_api\<close>, the last segment cut at its dot and followed by \<open>_API\<close>,
  and every other segment, segment 0 included, as it was. On \<open>a/b/c/Foo.cc\<close> the result
  is \<open>a/b/c_api/auto_generated_api/Foo_API\<close>.
\<close>

theorem apiname_from_filename_rewrites:
  assumes "3 < length (split_char CHR ''/'' fname)"
      and "count_list (last (split_char CHR ''/'' fname)) CHR ''.'' = 1"
  shows "apiname_from_filename fname =
         Inr (let es = split_char CHR ''/'' fname in
              str_join ''/''
                (es[2 := es ! 2 @ ''_api/auto_generated_api'',
                    length es - 1 := takeWhile (\<lambda>c. c \<noteq> CHR ''.'') (last es) @ ''_API'']))"
proof -
  show ?thesis
    using apiname_from_filename_rewrites_general [OF assms] pieces_join [OF assms(1)]
    by (simp add: Let_def hd_split_char)
qed

theorem apiname_from_filename_rewrites_witness:
  "3 < length (split_char CHR ''/'' ''a/b/c/Foo.cc'') \<and>
   count_list (last (split_char CHR ''/'' ''a/b/c/Foo.cc'')) CHR ''.'' = 1 \<and>
   apiname_from_filename ''a/b/c/Foo.cc'' = Inr ''a/b/c_api/auto_generated_api/Foo_API''"
proof -
  have a: "3 < length (split_char CHR ''/'' ''a/b/c/Foo.cc'')" by simp
  have b: "count_list (last (split_char CHR ''/'' ''a/b/c/Foo.cc'')) CHR ''.'' = 1" by simp
  show ?thesis
    using a b apiname_from_filename_rewrites [OF a b] by (simp add: Let_def)
qed


text \<open>
  C8. The mapper ends with a failed assertion exactly when the path has three or fewer
  segments or its last segment does not hold exactly one dot, and returns a name otherwise;
  the script ends with a failed assertion when it is not given exactly five arguments after
  its own name; and the walker ends with a failed assertion when its directory name does not
  name a directory. Nothing in the script catches these errors.
\<close>

theorem precondition_violations_abort:
  "(apiname_from_filename fname = Inl AssertionError \<longleftrightarrow>
      length (split_char CHR ''/'' fname) \<le> 3 \<or>
      count_list (last (split_char CHR ''/'' fname)) CHR ''.'' \<noteq> 1) \<and>
   ((\<exists>newname. apiname_from_filename fname = Inr newname) \<longleftrightarrow>
      3 < length (split_char CHR ''/'' fname) \<and>
      count_list (last (split_char CHR ''/'' fname)) CHR ''.'' = 1) \<and>
   (length argv \<noteq> 6 \<longrightarrow> main argv fs = Inl AssertionError) \<and>
   (\<not> isdir n \<longrightarrow>
      get_all_cc_and_hh_files_in_dir_and_subdirs libname dirname skip_apps n = Inl AssertionError)"
proof -
  let ?es = "split_char CHR ''/'' fname"
  let ?bad = "length ?es \<le> 3 \<or> count_list (last ?es) CHR ''.'' \<noteq> 1"
  have fail: "apiname_from_filename fname = Inl AssertionError" if "?bad"
  proof (cases "3 < length ?es")
    case False
    then show ?thesis by (simp add: apiname_from_filename_def Let_def)
  next
    case True
    with that have "length (split_char CHR ''.'' (last ?es)) \<noteq> 2"
      by (simp add: length_split_char)
    have "0 < length ?es" by (simp add: split_char_nonempty)
    from apiname_loop_fail [OF \<open>length (split_char CHR ''.'' (last ?es)) \<noteq> 2\<close> True this, of "[]"]
      True show ?thesis
      by (simp add: apiname_from_filename_def Let_def)
  qed
  have ok: "\<exists>newname. apiname_from_filename fname = Inr newname" if "\<not> ?bad"
  proof -
    from that have a: "3 < length ?es" and b: "count_list (last ?es) CHR ''.'' = 1"
      by simp_all
    from apiname_from_filename_rewrites_general [OF a b] show ?thesis by blast
  qed
  have p1: "apiname_from_filename fname = Inl AssertionError \<longleftrightarrow> ?bad"
    using fail ok by (cases "?bad") auto
  have p2: "(\<exists>newname. apiname_from_filename fname = Inr newname) \<longleftrightarrow>
            3 < length ?es \<and> count_list (last ?es) CHR ''.'' = 1"
    using fail ok by (cases "?bad") auto
  have p3: "length argv \<noteq> 6 \<longrightarrow> main argv fs = Inl AssertionError"
    by (simp add: main_def)
  have p4: "\<not> isdir n \<longrightarrow>
      get_all_cc_and_hh_files_in_dir_and_subdirs libname dirname skip_apps n = Inl AssertionError"
    by (cases n) (simp_all add: isdir_def)
  from p1 p2 p3 p4 show ?thesis by blast
qed

theorem precondition_violations_abort_witness:
  "apiname_from_filename ''a/b/Foo.cc'' = Inl AssertionError \<and>
   apiname_from_filename ''a/b/c/Foo.fwd.hh'' = Inl AssertionError \<and>
   length [''generate_cmake_build.py'', ''core''] \<noteq> 6 \<and>
   main [''generate_cmake_build.py'', ''core''] (\<lambda>p. Other) = Inl AssertionError \<and>
   \<not> isdir Other \<and>
   get_all_cc_and_hh_files_in_dir_and_subdirs ''core'' ''../src/core'' True Other
     = Inl AssertionError"
  using precondition_violations_abort
          [where fname = "''a/b/Foo.cc''" and argv = "[''generate_cmake_build.py'', ''core'']"
             and fs = "\<lambda>p. Other" and n = Other and libname = "''core''"
             and dirname = "''../src/core''" and skip_apps = True]
        precondition_violations_abort
          [where fname = "''a/b/c/Foo.fwd.hh''" and argv = "[]" and fs = "\<lambda>p. Other"
             and n = Other and libname = "[]" and dirname = "[]" and skip_apps = True]
  by (simp add: isdir_def)

section \<open>The directory walker\<close>

lemma is_skipped_set:
  "is_skipped libname dirname True \<longleftrightarrow>
     (\<exists>pre. dirname = pre @ libname @ ''_apps'' \<or> dirname = pre @ libname @ ''_apps/'')"
  by (auto simp: is_skipped_def endswith_def suffix_def)

lemma is_skipped_unset:
  "is_skipped libname dirname False \<longleftrightarrow>
     (\<exists>pre. dirname = pre @ libname @ ''/auto_generated_api'' \<or>
            dirname = pre @ libname @ ''/auto_generated_api/'')"
  by (auto simp: is_skipped_def endswith_def suffix_def)

lemma prune_Dir: "\<exists>entries'. prune libname dirname skip_apps (Dir entries) = Dir entries'"
  by simp

lemma walk_prune:
  "get_all_cc_and_hh_files_in_dir_and_subdirs libname dirname skip_apps
     (prune libname dirname skip_apps n) =
   get_all_cc_and_hh_files_in_dir_and_subdirs libname dirname skip_apps n"
  "walk_entries libname dirname skip_apps (prune_entries libname dirname skip_apps entries) =
   walk_entries libname dirname skip_apps entries"
proof (induction libname dirname skip_apps n and libname dirname skip_apps entries
       rule: get_all_cc_and_hh_files_in_dir_and_subdirs_walk_entries.induct)
  case (1 libname dirname skip_apps entries)
  then show ?case by simp
next
  case (6 libname dirname skip_apps fname sub rest)
  obtain sub' where sub':
    "prune libname (dirname @ ''/'' @ fname) skip_apps (Dir sub) = Dir sub'"
    using prune_Dir by blast
  have "walk_entries libname dirname skip_apps
          (prune_entries libname dirname skip_apps ((fname, Dir sub) # rest)) =
        extend_lists
          (get_all_cc_and_hh_files_in_dir_and_subdirs libname (dirname @ ''/'' @ fname) skip_apps
             (Dir sub'))
          (walk_entries libname dirname skip_apps (prune_entries libname dirname skip_apps rest))"
    by (simp only: prune_entries.simps) (simp only: sub' walk_entries.simps)
  also have "\<dots> =
        extend_lists
          (get_all_cc_and_hh_files_in_dir_and_subdirs libname (dirname @ ''/'' @ fname) skip_apps
             (Dir sub))
          (walk_entries libname dirname skip_apps rest)"
    using 6 by (simp only: sub' [symmetric])
  finally show ?case by (simp only: walk_entries.simps)
qed simp_all

text \<open>
  C3. With the flag set the walker skips a directory exactly when its name, as a string,
  ends with the library name followed by \<open>_apps\<close> or by \<open>_apps/\<close>; with the flag unset,
  exactly when it ends with the library name followed by \<open>/auto_generated_api\<close> or by
  \<open>/auto_generated_api/\<close>. A skipped directory yields two empty lists, and the lists of a
  whole walk do not change when every skipped directory of the tree is emptied: none of their
  files appears in either list. The test is on the end of the string, so \<open>notcore_apps\<close>
  is skipped for the library \<open>core\<close>.
\<close>

theorem excluded_directories_skipped:
  "(is_skipped libname dirname True \<longleftrightarrow>
      (\<exists>pre. dirname = pre @ libname @ ''_apps'' \<or> dirname = pre @ libname @ ''_apps/'')) \<and>
   (is_skipped libname dirname False \<longleftrightarrow>
      (\<exists>pre. dirname = pre @ libname @ ''/auto_generated_api'' \<or>
             dirname = pre @ libname @ ''/auto_generated_api/'')) \<and>
   (is_skipped libname dirname skip_apps \<longrightarrow>
      get_all_cc_and_hh_files_in_dir_and_subdirs libname dirname skip_apps (Dir entries)
        = Inr ([], [])) \<and>
   get_all_cc_and_hh_files_in_dir_and_subdirs libname dirname skip_apps
     (prune libname dirname skip_apps n) =
   get_all_cc_and_hh_files_in_dir_and_subdirs libname dirname skip_apps n"
  using is_skipped_set [of libname dirname] is_skipped_unset [of libname dirname]
        walk_prune(1) [of libname dirname skip_apps n]
  by simp

theorem excluded_directories_skipped_witness:
  "is_skipped ''core'' ''../src/notcore_apps'' True \<and>
   get_all_cc_and_hh_files_in_dir_and_subdirs ''core'' ''../src/notcore_apps'' True
     (Dir [(''other.hh'', File [])]) = Inr ([], []) \<and>
   is_skipped ''core_api'' ''../src/core_api/auto_generated_api/'' False \<and>
   get_all_cc_and_hh_files_in_dir_and_subdirs ''core_api'' ''../src/core_api/auto_generated_api/''
     False (Dir [(''Foo_API.cc'', File [])]) = Inr ([], []) \<and>
   prune ''core'' ''../src/core'' True apps_tree =
     Dir [(''a.cc'', File ''int a;''), (''core_apps'', Dir []), (''notcore_apps'', Dir []),
          (''sub'', Dir [(''b.hh'', File [])])] \<and>
   get_all_cc_and_hh_files_in_dir_and_subdirs ''core'' ''../src/core'' True apps_tree =
     Inr ([''../src/core/a.cc'', ''../src/core/sub/b.hh''], [])"
proof -
  have pre1: "\<exists>pre. ''../src/notcore_apps'' = pre @ ''core'' @ ''_apps'' \<or>
                    ''../src/notcore_apps'' = pre @ ''core'' @ ''_apps/''"
    by (rule exI [of _ "''../src/not''"]) simp
  have pre2: "\<exists>pre. ''../src/core_api/auto_generated_api/'' =
                      pre @ ''core_api'' @ ''/auto_generated_api'' \<or>
                    ''../src/core_api/auto_generated_api/'' =
                      pre @ ''core_api'' @ ''/auto_generated_api/''"
    by (rule exI [of _ "''../src/''"]) simp
  note t1 = excluded_directories_skipped
              [of "''core''" "''../src/notcore_apps''" True "[(''other.hh'', File [])]" Other]
  note t2 = excluded_directories_skipped
              [of "''core_api''" "''../src/core_api/auto_generated_api/''" False
                  "[(''Foo_API.cc'', File [])]" Other]
  note t3 = excluded_directories_skipped [of "''core''" "''../src/core''" True "[]" apps_tree]
  have s1: "is_skipped ''core'' ''../src/notcore_apps'' True" using t1 pre1 by blast
  have w1: "get_all_cc_and_hh_files_in_dir_and_subdirs ''core'' ''../src/notcore_apps'' True
     (Dir [(''other.hh'', File [])]) = Inr ([], [])" using t1 s1 by blast
  have s2: "is_skipped ''core_api'' ''../src/core_api/auto_generated_api/'' False"
    using t2 pre2 by blast
  have w2: "get_all_cc_and_hh_files_in_dir_and_subdirs ''core_api''
     ''../src/core_api/auto_generated_api/'' False (Dir [(''Foo_API.cc'', File [])]) = Inr ([], [])"
    using t2 s2 by blast
  have p: "prune ''core'' ''../src/core'' True apps_tree =
     Dir [(''a.cc'', File ''int a;''), (''core_apps'', Dir []), (''notcore_apps'', Dir []),
          (''sub'', Dir [(''b.hh'', File [])])]"
    by code_simp
  have w: "get_all_cc_and_hh_files_in_dir_and_subdirs ''core'' ''../src/core'' True
             (Dir [(''a.cc'', File ''int a;''), (''core_apps'', Dir []), (''notcore_apps'', Dir []),
                   (''sub'', Dir [(''b.hh'', File [])])]) =
           Inr ([''../src/core/a.cc'', ''../src/core/sub/b.hh''], [])"
    by code_simp
  have w3: "get_all_cc_and_hh_files_in_dir_and_subdirs ''core'' ''../src/core'' True apps_tree =
     Inr ([''../src/core/a.cc'', ''../src/core/sub/b.hh''], [])"
  proof -
    from t3 have e: "get_all_cc_and_hh_files_in_dir_and_subdirs ''core'' ''../src/core'' True
                       (prune ''core'' ''../src/core'' True apps_tree) =
                     get_all_cc_and_hh_files_in_dir_and_subdirs ''core'' ''../src/core'' True
                       apps_tree"
      by blast
    show ?thesis unfolding e [symmetric] p by (rule w)
  qed
  from s1 w1 s2 w2 p w3 show ?thesis by blast
qed

section \<open>The script body\<close>

lemma apiname_from_filename_cases:
  "apiname_from_filename fname = Inl AssertionError \<or>
   (\<exists>newname. apiname_from_filename fname = Inr newname)"
proof (cases "3 < length (split_char CHR ''/'' fname) \<and>
              count_list (last (split_char CHR ''/'' fname)) CHR ''.'' = 1")
  case True
  then show ?thesis
    using apiname_from_filename_rewrites_general [of fname] by simp
next
  case False
  show ?thesis
  proof (cases "3 < length (split_char CHR ''/'' fname)")
    case False
    then show ?thesis by (simp add: apiname_from_filename_def Let_def)
  next
    case True
    with \<open>\<not> (3 < length (split_char CHR ''/'' fname) \<and>
              count_list (last (split_char CHR ''/'' fname)) CHR ''.'' = 1)\<close>
    have ne: "length (split_char CHR ''.'' (last (split_char CHR ''/'' fname))) \<noteq> 2"
      by (simp add: length_split_char)
    have "0 < length (split_char CHR ''/'' fname)" by (simp add: split_char_nonempty)
    from apiname_loop_fail [OF ne True this, of "[]"] True show ?thesis
      by (simp add: apiname_from_filename_def Let_def)
  qed
qed

lemma walk_file_error:
  "walk_file fname concatname skip_apps file_contents = Inl e \<Longrightarrow> e = AssertionError"
  using apiname_from_filename_cases [of concatname]
  by (auto simp: walk_file_def Let_def split: if_splits sum.splits)

lemma extend_lists_error:
  "extend_lists r1 r2 = Inl e \<Longrightarrow> r1 = Inl e \<or> r2 = Inl e"
  by (auto simp: extend_lists_def split: sum.splits prod.splits)

lemma walk_error:
  "get_all_cc_and_hh_files_in_dir_and_subdirs libname dirname skip_apps n = Inl e \<Longrightarrow>
     e = AssertionError"
  "walk_entries libname dirname skip_apps entries = Inl e \<Longrightarrow> e = AssertionError"
proof (induction libname dirname skip_apps n and libname dirname skip_apps entries
       rule: get_all_cc_and_hh_files_in_dir_and_subdirs_walk_entries.induct)
  case (1 libname dirname skip_apps entries)
  then show ?case by (simp split: if_splits)
next
  case (2 libname dirname skip_apps file_contents)
  then show ?case by simp
next
  case (3 libname dirname skip_apps)
  then show ?case by simp
next
  case (4 libname dirname skip_apps)
  then show ?case by simp
next
  case (5 libname dirname skip_apps fname file_contents rest)
  from 5(2) have
    "walk_file fname (dirname @ ''/'' @ fname) skip_apps file_contents = Inl e \<or>
     walk_entries libname dirname skip_apps rest = Inl e"
    by (simp add: extend_lists_error)
  then show ?case using 5(1) walk_file_error by blast
next
  case (6 libname dirname skip_apps fname sub rest)
  from 6(3) have
    "get_all_cc_and_hh_files_in_dir_and_subdirs libname (dirname @ ''/'' @ fname) skip_apps
       (Dir sub) = Inl e \<or>
     walk_entries libname dirname skip_apps rest = Inl e"
    by (simp add: extend_lists_error)
  then show ?case using 6(1,2) by blast
next
  case (7 libname dirname skip_apps fname rest)
  then show ?case by simp
qed

lemma walk_not_dir:
  "\<not> isdir n \<Longrightarrow>
   get_all_cc_and_hh_files_in_dir_and_subdirs libname dirname skip_apps n = Inl AssertionError"
  by (cases n) (simp_all add: isdir_def)

lemma collect_no_api_dir:
  assumes "\<not> isdir (fs (source_dir @ ''_api''))"
  shows "collect lib_name source_dir output_file_tests fs = Inl AssertionError"
proof (cases "get_all_cc_and_hh_files_in_dir_and_subdirs lib_name source_dir True (fs source_dir)")
  case (Inl e)
  then have "e = AssertionError" by (rule walk_error(1))
  with Inl show ?thesis by (simp add: collect_def)
next
  case (Inr lists)
  then show ?thesis
    using walk_not_dir [OF assms, of "lib_name @ ''_api''" "source_dir @ ''_api''" False]
    by (simp add: collect_def split: prod.splits)
qed

lemma collect_api_cclist:
  assumes "collect lib_name source_dir output_file_tests fs = Inr c"
  shows "\<exists>cclist1 api_cclist1 api_files unused.
           get_all_cc_and_hh_files_in_dir_and_subdirs lib_name source_dir True (fs source_dir)
             = Inr (cclist1, api_cclist1) \<and>
           get_all_cc_and_hh_files_in_dir_and_subdirs (lib_name @ ''_api'')
             (source_dir @ ''_api'') False (fs (source_dir @ ''_api'')) = Inr (api_files, unused) \<and>
           cclist c = cclist1 \<and>
           api_cclist c = api_cclist1 @ api_files"
  using assms
  by (auto simp: collect_def Let_def split: sum.splits prod.splits)

text \<open>
  C10. A run with the right number of arguments ends with a failed assertion whenever
  \<open>source_dir\<close> followed by \<open>_api\<close> does not name a directory, whatever the library tree
  holds and whatever the fourth argument is; and whenever the lists are collected, the API
  list is the one of the library walk followed by the files of the walk of that directory,
  made with the library name followed by \<open>_api\<close> and the flag unset.
\<close>

theorem api_directory_always_walked:
  "(length argv = 6 \<and> \<not> isdir (fs (argv ! 2 @ ''_api'')) \<longrightarrow>
      main argv fs = Inl AssertionError) \<and>
   (collect lib_name source_dir output_file_tests fs = Inr c \<longrightarrow>
      (\<exists>cclist1 api_cclist1 api_files unused.
         get_all_cc_and_hh_files_in_dir_and_subdirs lib_name source_dir True (fs source_dir)
           = Inr (cclist1, api_cclist1) \<and>
         get_all_cc_and_hh_files_in_dir_and_subdirs (lib_name @ ''_api'')
           (source_dir @ ''_api'') False (fs (source_dir @ ''_api'')) = Inr (api_files, unused) \<and>
         api_cclist c = api_cclist1 @ api_files))"
proof -
  have a: "main argv fs = Inl AssertionError"
    if "length argv = 6" and "\<not> isdir (fs (argv ! 2 @ ''_api''))"
    using that collect_no_api_dir [of fs "argv ! 2"] by (simp add: main_def Let_def)
  have b: "\<exists>cclist1 api_cclist1 api_files unused.
         get_all_cc_and_hh_files_in_dir_and_subdirs lib_name source_dir True (fs source_dir)
           = Inr (cclist1, api_cclist1) \<and>
         get_all_cc_and_hh_files_in_dir_and_subdirs (lib_name @ ''_api'')
           (source_dir @ ''_api'') False (fs (source_dir @ ''_api'')) = Inr (api_files, unused) \<and>
         api_cclist c = api_cclist1 @ api_files"
    if "collect lib_name source_dir output_file_tests fs = Inr c"
    using collect_api_cclist [OF that] by blast
  from a b show ?thesis by blast
qed


theorem api_directory_always_walked_witness:
  "length [''generate_cmake_build.py'', ''core'', ''../src/core'', ''out.cmake'', ''NONE'', ''NONE'']
     = 6 \<and>
   \<not> isdir (no_api_dir_fs
      ([''generate_cmake_build.py'', ''core'', ''../src/core'', ''out.cmake'', ''NONE'', ''NONE'']
         ! 2 @ ''_api'')) \<and>
   main [''generate_cmake_build.py'', ''core'', ''../src/core'', ''out.cmake'', ''NONE'', ''NONE'']
     no_api_dir_fs = Inl AssertionError \<and>
   collect ''core'' ''../src/core'' None small_library_fs =
     Inr \<lparr> cclist = [''../src/core/sub/Foo.cc''],
           api_cclist = [''../src/core_api/auto_generated_api/sub/Foo_API.cc'',
                         ''../src/core_api/auto_generated_api/sub/Foo_API.hh'',
                         ''../src/core_api/auto_generated_api/sub/Foo_API.fwd.hh''],
           depend_list = [''base''], appslist = [], testslist = [] \<rparr> \<and>
   (\<exists>cclist1 api_cclist1 api_files unused.
      get_all_cc_and_hh_files_in_dir_and_subdirs ''core'' ''../src/core'' True
        (small_library_fs ''../src/core'') = Inr (cclist1, api_cclist1) \<and>
      get_all_cc_and_hh_files_in_dir_and_subdirs (''core'' @ ''_api'') (''../src/core'' @ ''_api'')
        False (small_library_fs (''../src/core'' @ ''_api'')) = Inr (api_files, unused) \<and>
      [''../src/core_api/auto_generated_api/sub/Foo_API.cc'',
       ''../src/core_api/auto_generated_api/sub/Foo_API.hh'',
       ''../src/core_api/auto_generated_api/sub/Foo_API.fwd.hh''] = api_cclist1 @ api_files)"
proof -
  let ?argv = "[''generate_cmake_build.py'', ''core'', ''../src/core'', ''out.cmake'', ''NONE'',
                ''NONE'']"
  let ?c = "\<lparr> cclist = [''../src/core/sub/Foo.cc''],
           api_cclist = [''../src/core_api/auto_generated_api/sub/Foo_API.cc'',
                         ''../src/core_api/auto_generated_api/sub/Foo_API.hh'',
                         ''../src/core_api/auto_generated_api/sub/Foo_API.fwd.hh''],
           depend_list = [''base''], appslist = [], testslist = [] \<rparr>"
  have len: "length ?argv = 6" by simp
  have nodir: "\<not> isdir (no_api_dir_fs (?argv ! 2 @ ''_api''))"
    by (simp add: no_api_dir_fs_def isdir_def)
  have col: "collect ''core'' ''../src/core'' None small_library_fs = Inr ?c"
    by code_simp
  from api_directory_always_walked [of ?argv no_api_dir_fs]
  have abort: "main ?argv no_api_dir_fs = Inl AssertionError"
    using len nodir by blast
  from api_directory_always_walked
         [of "[]" small_library_fs "''core''" "''../src/core''" None ?c] col
  have ex: "\<exists>cclist1 api_cclist1 api_files unused.
      get_all_cc_and_hh_files_in_dir_and_subdirs ''core'' ''../src/core'' True
        (small_library_fs ''../src/core'') = Inr (cclist1, api_cclist1) \<and>
      get_all_cc_and_hh_files_in_dir_and_subdirs (''core'' @ ''_api'') (''../src/core'' @ ''_api'')
        False (small_library_fs (''../src/core'' @ ''_api'')) = Inr (api_files, unused) \<and>
      api_cclist ?c = api_cclist1 @ api_files"
    by blast
  have sel: "api_cclist ?c = [''../src/core_api/auto_generated_api/sub/Foo_API.cc'',
       ''../src/core_api/auto_generated_api/sub/Foo_API.hh'',
       ''../src/core_api/auto_generated_api/sub/Foo_API.fwd.hh'']" by simp
  from ex have ex': "\<exists>cclist1 api_cclist1 api_files unused.
      get_all_cc_and_hh_files_in_dir_and_subdirs ''core'' ''../src/core'' True
        (small_library_fs ''../src/core'') = Inr (cclist1, api_cclist1) \<and>
      get_all_cc_and_hh_files_in_dir_and_subdirs (''core'' @ ''_api'') (''../src/core'' @ ''_api'')
        False (small_library_fs (''../src/core'' @ ''_api'')) = Inr (api_files, unused) \<and>
      [''../src/core_api/auto_generated_api/sub/Foo_API.cc'',
       ''../src/core_api/auto_generated_api/sub/Foo_API.hh'',
       ''../src/core_api/auto_generated_api/sub/Foo_API.fwd.hh''] = api_cclist1 @ api_files"
    unfolding sel .
  from len nodir abort col ex' show ?thesis by blast
qed

lemma emit_descriptors:
  assumes "testslist c \<noteq> [] \<longrightarrow> output_file_tests \<noteq> None"
  shows "\<exists>d. emit lib_name output_file output_file_api output_file_tests c = Inr d \<and>
           library_descriptor d = Some (output_file, library_text lib_name c) \<and>
           (api_descriptor d \<noteq> None \<longleftrightarrow> api_cclist c \<noteq> [] \<and> output_file_api \<noteq> None) \<and>
           (tests_descriptor d \<noteq> None \<longleftrightarrow> testslist c \<noteq> [] \<and> output_file_tests \<noteq> None)"
  using assms by (cases output_file_tests) (auto simp: emit_def Let_def)

lemma collect_testslist_suppressed:
  assumes "collect lib_name source_dir output_file_tests fs = Inr c"
  shows "testslist c \<noteq> [] \<longrightarrow> output_file_tests \<noteq> None"
  using assms
  by (auto simp: collect_def Let_def split: sum.splits prod.splits if_splits)

lemma library_text_no_sources:
  assumes "cclist c = []"
  shows "library_text lib_name c =
     concat (map (\<lambda>app.
        [CHR 0x0A] @ ''ADD_EXECUTABLE( '' @
        takeWhile (\<lambda>ch. ch \<noteq> CHR ''.'') (last (split_char CHR ''/'' app)) @ '' '' @ app @
        '')'' @ [CHR 0x0A] @
        ''TARGET_LINK_LIBRARIES('' @
        takeWhile (\<lambda>ch. ch \<noteq> CHR ''.'') (last (split_char CHR ''/'' app)) @
        concat (map (\<lambda>dentry. [CHR 0x0A, CHR 0x09] @ ''PUBLIC '' @ dentry) (depend_list c)) @
        [CHR 0x0A, CHR 0x09] @ ''PRIVATE Threads::Threads'' @
        [CHR 0x0A, CHR 0x09] @ ''PUBLIC '' @ lib_name @ [CHR 0x0A] @ '')'' @ [CHR 0x0A])
      (appslist c))"
  using assms
  by (simp add: library_text_def public_links_def NL_def TAB_def basename_def hd_split_char
        Let_def)

text \<open>
  C9, as the code behaves. In every run that collects its lists, the library descriptor is
  opened for writing whatever its list holds; the API descriptor is written exactly when the
  API list is not empty and its path is not the sentinel \<open>NONE\<close>; the test descriptor is
  written exactly when the test list is not empty and its path is not the sentinel. With an
  empty library list the library descriptor holds the blocks of the applications and nothing
  else, one \<open>ADD_EXECUTABLE\<close> and one \<open>TARGET_LINK_LIBRARIES\<close> block for each application
  file, and it is empty when there is no application file either.
\<close>

theorem descriptors_written:
  assumes "length argv = 6"
      and "collect (argv ! 1) (argv ! 2) (if argv ! 5 = ''NONE'' then None else Some (argv ! 5)) fs
             = Inr c"
  shows "\<exists>d. main argv fs = Inr d \<and>
           library_descriptor d = Some (argv ! 3, library_text (argv ! 1) c) \<and>
           (api_descriptor d \<noteq> None \<longleftrightarrow> api_cclist c \<noteq> [] \<and> argv ! 4 \<noteq> ''NONE'') \<and>
           (tests_descriptor d \<noteq> None \<longleftrightarrow> testslist c \<noteq> [] \<and> argv ! 5 \<noteq> ''NONE'') \<and>
           (cclist c = [] \<longrightarrow>
              library_descriptor d =
                Some (argv ! 3,
                  concat (map (\<lambda>app.
                    [CHR 0x0A] @ ''ADD_EXECUTABLE( '' @
                    takeWhile (\<lambda>ch. ch \<noteq> CHR ''.'') (last (split_char CHR ''/'' app)) @
                    '' '' @ app @ '')'' @ [CHR 0x0A] @
                    ''TARGET_LINK_LIBRARIES('' @
                    takeWhile (\<lambda>ch. ch \<noteq> CHR ''.'') (last (split_char CHR ''/'' app)) @
                    concat (map (\<lambda>dentry. [CHR 0x0A, CHR 0x09] @ ''PUBLIC '' @ dentry)
                      (depend_list c)) @
                    [CHR 0x0A, CHR 0x09] @ ''PRIVATE Threads::Threads'' @
                    [CHR 0x0A, CHR 0x09] @ ''PUBLIC '' @ argv ! 1 @ [CHR 0x0A] @ '')'' @
                    [CHR 0x0A])
                  (appslist c)))) \<and>
           (cclist c = [] \<and> appslist c = [] \<longrightarrow> library_descriptor d = Some (argv ! 3, []))"
proof -
  let ?api = "if argv ! 4 = ''NONE'' then None else Some (argv ! 4)"
  let ?tests = "if argv ! 5 = ''NONE'' then None else Some (argv ! 5)"
  have m: "main argv fs = emit (argv ! 1) (argv ! 3) ?api ?tests c"
    using assms by (simp add: main_def Let_def)
  from emit_descriptors [OF collect_testslist_suppressed [OF assms(2)],
         of "argv ! 1" "argv ! 3" ?api]
  obtain d where d: "emit (argv ! 1) (argv ! 3) ?api ?tests c = Inr d"
      "library_descriptor d = Some (argv ! 3, library_text (argv ! 1) c)"
      "api_descriptor d \<noteq> None \<longleftrightarrow> api_cclist c \<noteq> [] \<and> ?api \<noteq> None"
      "tests_descriptor d \<noteq> None \<longleftrightarrow> testslist c \<noteq> [] \<and> ?tests \<noteq> None"
    by blast
  have a: "?api \<noteq> None \<longleftrightarrow> argv ! 4 \<noteq> ''NONE''" by simp
  have t: "?tests \<noteq> None \<longleftrightarrow> argv ! 5 \<noteq> ''NONE''" by simp
  have e1: "cclist c = [] \<longrightarrow>
              library_descriptor d =
                Some (argv ! 3,
                  concat (map (\<lambda>app.
                    [CHR 0x0A] @ ''ADD_EXECUTABLE( '' @
                    takeWhile (\<lambda>ch. ch \<noteq> CHR ''.'') (last (split_char CHR ''/'' app)) @
                    '' '' @ app @ '')'' @ [CHR 0x0A] @
                    ''TARGET_LINK_LIBRARIES('' @
                    takeWhile (\<lambda>ch. ch \<noteq> CHR ''.'') (last (split_char CHR ''/'' app)) @
                    concat (map (\<lambda>dentry. [CHR 0x0A, CHR 0x09] @ ''PUBLIC '' @ dentry)
                      (depend_list c)) @
                    [CHR 0x0A, CHR 0x09] @ ''PRIVATE Threads::Threads'' @
                    [CHR 0x0A, CHR 0x09] @ ''PUBLIC '' @ argv ! 1 @ [CHR 0x0A] @ '')'' @
                    [CHR 0x0A])
                  (appslist c)))"
    using d(2) library_text_no_sources [of c "argv ! 1"] by simp
  have e2: "cclist c = [] \<and> appslist c = [] \<longrightarrow> library_descriptor d = Some (argv ! 3, [])"
    using d(2) library_text_no_sources [of c "argv ! 1"] by simp
  from m d(1) have "main argv fs = Inr d" by simp
  with d(2) d(3) d(4) a t e1 e2 show ?thesis by blast
qed

text \<open>
  C9, as the claim states it, fails for the library descriptor: in a run on a library
  directory with no files the collected library list is empty, and the file at the library
  descriptor's path is still opened for writing and left empty.
\<close>

theorem library_descriptor_written_when_empty:
  "collect ''core'' ''../src/core'' None empty_library_fs =
     Inr \<lparr> cclist = [], api_cclist = [], depend_list = [], appslist = [], testslist = [] \<rparr> \<and>
   main [''generate_cmake_build.py'', ''core'', ''../src/core'', ''out.cmake'', ''api.cmake'',
         ''NONE''] empty_library_fs =
     Inr \<lparr> library_descriptor = Some (''out.cmake'', []), api_descriptor = None,
           tests_descriptor = None \<rparr>"
  by code_simp

theorem descriptors_written_witness:
  "length [''generate_cmake_build.py'', ''core'', ''../src/core'', ''out.cmake'', ''api.cmake'',
           ''NONE''] = 6 \<and>
   collect ''core'' ''../src/core'' None small_library_fs =
     Inr \<lparr> cclist = [''../src/core/sub/Foo.cc''],
           api_cclist = [''../src/core_api/auto_generated_api/sub/Foo_API.cc'',
                         ''../src/core_api/auto_generated_api/sub/Foo_API.hh'',
                         ''../src/core_api/auto_generated_api/sub/Foo_API.fwd.hh''],
           depend_list = [''base''], appslist = [], testslist = [] \<rparr> \<and>
   (\<exists>d. main [''generate_cmake_build.py'', ''core'', ''../src/core'', ''out.cmake'', ''api.cmake'',
               ''NONE''] small_library_fs = Inr d \<and>
        fst (the (library_descriptor d)) = ''out.cmake'' \<and>
        api_descriptor d \<noteq> None \<and>
        tests_descriptor d = None) \<and>
   collect ''core'' ''../src/core'' None apps_only_fs =
     Inr \<lparr> cclist = [], api_cclist = [], depend_list = [],
           appslist = [''../src/core/core_apps/tool.cc''], testslist = [] \<rparr> \<and>
   (\<exists>d. main [''generate_cmake_build.py'', ''core'', ''../src/core'', ''out.cmake'', ''api.cmake'',
               ''NONE''] apps_only_fs = Inr d \<and>
        library_descriptor d =
          Some (''out.cmake'',
            [CHR 0x0A] @ ''ADD_EXECUTABLE( tool ../src/core/core_apps/tool.cc)'' @ [CHR 0x0A] @
            ''TARGET_LINK_LIBRARIES(tool'' @
            [CHR 0x0A, CHR 0x09] @ ''PRIVATE Threads::Threads'' @
            [CHR 0x0A, CHR 0x09] @ ''PUBLIC core'' @ [CHR 0x0A] @ '')'' @ [CHR 0x0A]) \<and>
        api_descriptor d = None \<and>
        tests_descriptor d = None)"
proof -
  let ?argv = "[''generate_cmake_build.py'', ''core'', ''../src/core'', ''out.cmake'',
                ''api.cmake'', ''NONE'']"
  let ?c = "\<lparr> cclist = [''../src/core/sub/Foo.cc''],
           api_cclist = [''../src/core_api/auto_generated_api/sub/Foo_API.cc'',
                         ''../src/core_api/auto_generated_api/sub/Foo_API.hh'',
                         ''../src/core_api/auto_generated_api/sub/Foo_API.fwd.hh''],
           depend_list = [''base''], appslist = [], testslist = [] \<rparr>"
  let ?c2 = "\<lparr> cclist = [], api_cclist = [], depend_list = [],
           appslist = [''../src/core/core_apps/tool.cc''], testslist = [] \<rparr>"
  have len: "length ?argv = 6" by simp
  have col: "collect ''core'' ''../src/core'' None small_library_fs = Inr ?c"
    by code_simp
  have col': "collect (?argv ! 1) (?argv ! 2)
                (if ?argv ! 5 = ''NONE'' then None else Some (?argv ! 5)) small_library_fs = Inr ?c"
    using col by simp
  have col2: "collect ''core'' ''../src/core'' None apps_only_fs = Inr ?c2"
    by code_simp
  have col2': "collect (?argv ! 1) (?argv ! 2)
                (if ?argv ! 5 = ''NONE'' then None else Some (?argv ! 5)) apps_only_fs = Inr ?c2"
    using col2 by simp
  from descriptors_written [OF len col']
  obtain d where d: "main ?argv small_library_fs = Inr d"
      "library_descriptor d = Some (?argv ! 3, library_text (?argv ! 1) ?c)"
      "api_descriptor d \<noteq> None \<longleftrightarrow> api_cclist ?c \<noteq> [] \<and> ?argv ! 4 \<noteq> ''NONE''"
      "tests_descriptor d \<noteq> None \<longleftrightarrow> testslist ?c \<noteq> [] \<and> ?argv ! 5 \<noteq> ''NONE''"
    by blast
  from d(2) have d2: "fst (the (library_descriptor d)) = ''out.cmake''" by simp
  from d(3) have d3: "api_descriptor d \<noteq> None" by simp
  from d(4) have d4: "tests_descriptor d = None"
    by (cases "tests_descriptor d") simp_all
  have first: "\<exists>d. main ?argv small_library_fs = Inr d \<and>
        fst (the (library_descriptor d)) = ''out.cmake'' \<and>
        api_descriptor d \<noteq> None \<and> tests_descriptor d = None"
    using d(1) d2 d3 d4 by blast
  from descriptors_written [OF len col2']
  obtain e where e: "main ?argv apps_only_fs = Inr e"
      "api_descriptor e \<noteq> None \<longleftrightarrow> api_cclist ?c2 \<noteq> [] \<and> ?argv ! 4 \<noteq> ''NONE''"
      "tests_descriptor e \<noteq> None \<longleftrightarrow> testslist ?c2 \<noteq> [] \<and> ?argv ! 5 \<noteq> ''NONE''"
      "cclist ?c2 = [] \<longrightarrow>
         library_descriptor e =
           Some (?argv ! 3,
             concat (map (\<lambda>app.
               [CHR 0x0A] @ ''ADD_EXECUTABLE( '' @
               takeWhile (\<lambda>ch. ch \<noteq> CHR ''.'') (last (split_char CHR ''/'' app)) @
               '' '' @ app @ '')'' @ [CHR 0x0A] @
               ''TARGET_LINK_LIBRARIES('' @
               takeWhile (\<lambda>ch. ch \<noteq> CHR ''.'') (last (split_char CHR ''/'' app)) @
               concat (map (\<lambda>dentry. [CHR 0x0A, CHR 0x09] @ ''PUBLIC '' @ dentry)
                 (depend_list ?c2)) @
               [CHR 0x0A, CHR 0x09] @ ''PRIVATE Threads::Threads'' @
               [CHR 0x0A, CHR 0x09] @ ''PUBLIC '' @ ?argv ! 1 @ [CHR 0x0A] @ '')'' @
               [CHR 0x0A])
             (appslist ?c2)))"
    by blast
  from e(4) have e1: "library_descriptor e =
          Some (''out.cmake'',
            [CHR 0x0A] @ ''ADD_EXECUTABLE( tool ../src/core/core_apps/tool.cc)'' @ [CHR 0x0A] @
            ''TARGET_LINK_LIBRARIES(tool'' @
            [CHR 0x0A, CHR 0x09] @ ''PRIVATE Threads::Threads'' @
            [CHR 0x0A, CHR 0x09] @ ''PUBLIC core'' @ [CHR 0x0A] @ '')'' @ [CHR 0x0A])"
    by simp
  from e(2) have e2: "api_descriptor e = None"
    by (cases "api_descriptor e") simp_all
  from e(3) have e3: "tests_descriptor e = None"
    by (cases "tests_descriptor e") simp_all
  have second: "\<exists>d. main ?argv apps_only_fs = Inr d \<and>
        library_descriptor d =
          Some (''out.cmake'',
            [CHR 0x0A] @ ''ADD_EXECUTABLE( tool ../src/core/core_apps/tool.cc)'' @ [CHR 0x0A] @
            ''TARGET_LINK_LIBRARIES(tool'' @
            [CHR 0x0A, CHR 0x09] @ ''PRIVATE Threads::Threads'' @
            [CHR 0x0A, CHR 0x09] @ ''PUBLIC core'' @ [CHR 0x0A] @ '')'' @ [CHR 0x0A]) \<and>
        api_descriptor d = None \<and> tests_descriptor d = None"
    using e(1) e1 e2 e3 by blast
  from len col first col2 second show ?thesis by blast
qed

section \<open>The comment stripper\<close>

subsection \<open>The block-comment loop as a scan of the text\<close>

lemma take_Suc0_prefix: "take (Suc 0) cs = [a] \<longleftrightarrow> prefix [a] cs"
  by (cases cs) auto

lemma rec_on_no_open: "\<not> sublist ''/*'' s \<Longrightarrow> rec_on s = s"
  by (induction s) (auto simp: sublist_Cons_right)

lemma rec_set:
  "set (rec_on s) \<subseteq> set s"
  "set (rec_off p s) \<subseteq> set s"
  by (induction s and p s rule: rec_on_rec_off.induct) auto

lemma rec_no_markers:
  "\<not> sublist ''//'' s \<Longrightarrow> \<not> sublist ''//'' (rec_on s) \<and> \<not> sublist ''/*'' (rec_on s)"
  "\<not> sublist ''//'' s \<Longrightarrow> \<not> sublist ''//'' (rec_off p s) \<and> \<not> sublist ''/*'' (rec_off p s)"
proof (induction s and p s rule: rec_on_rec_off.induct)
  case 1
  then show ?case by simp
next
  case (2 c cs)
  from 2(3) have nocs: "\<not> sublist ''//'' cs" and nopre: "\<not> prefix ''//'' (c # cs)"
    by (simp_all add: sublist_Cons_right)
  show ?case
  proof (cases "c = CHR ''/'' \<and> prefix ''*'' cs")
    case True
    with 2(1) nocs show ?thesis by simp
  next
    case False
    from 2(2) [OF False nocs]
    have ih: "\<not> sublist ''//'' (rec_on cs)" "\<not> sublist ''/*'' (rec_on cs)" by simp_all
    have hd: "\<not> prefix ''/'' (rec_on cs) \<and> \<not> prefix ''*'' (rec_on cs)" if "c = CHR ''/''"
    proof (cases cs)
      case Nil
      then show ?thesis by simp
    next
      case (Cons d ds)
      with that False nopre have "d \<noteq> CHR ''*''" "d \<noteq> CHR ''/''"
        by auto
      with Cons show ?thesis by simp
    qed
    have "rec_on (c # cs) = c # rec_on cs" using False by auto
    with ih hd show ?thesis
      by (auto simp: sublist_Cons_right)
  qed
next
  case (3 prev)
  then show ?case by simp
next
  case (4 prev c cs)
  from 4(3) have nocs: "\<not> sublist ''//'' cs"
    by (simp add: sublist_Cons_right)
  with 4 show ?case by auto
qed


lemma take2_drop_next:
  assumes "i < length s"
  shows "take 2 (drop i s) = [a, b] \<longleftrightarrow> s ! i = a \<and> prefix [b] (drop (Suc i) s)"
proof -
  have "drop i s = s ! i # drop (Suc i) s"
    using assms by (simp add: Cons_nth_drop_Suc)
  then have "take 2 (drop i s) = s ! i # take 1 (drop (Suc i) s)"
    by (simp add: numeral_2_eq_2)
  then show ?thesis
    by (simp add: take_Suc0_prefix)
qed

lemma prefix_drop_length: "prefix [b] (drop i s) \<Longrightarrow> i < length s"
  by (cases "i < length s") auto

lemma take2_drop_prev:
  assumes "0 < i" and "i < length s"
  shows "take 2 (drop (i - 1) s) = [a, b] \<longleftrightarrow> s ! (i - 1) = a \<and> s ! i = b"
proof -
  from assms have i: "Suc (i - 1) = i" and lt: "i - 1 < length s" by simp_all
  have "drop (i - 1) s = s ! (i - 1) # drop (Suc (i - 1)) s"
    using lt by (simp only: Cons_nth_drop_Suc)
  also have "drop (Suc (i - 1)) s = s ! i # drop (Suc i) s"
    using assms(2) by (simp only: i Cons_nth_drop_Suc)
  finally show ?thesis by (simp add: numeral_2_eq_2)
qed

lemma loop_end: "\<not> i < length s \<Longrightarrow> purge_block_loop s i r acc = acc"
  by (subst purge_block_loop.simps) simp

lemma loop_open:
  assumes "i < length s" and "s ! i = CHR ''/''" and "prefix ''*'' (drop (Suc i) s)"
  shows "purge_block_loop s i True acc = purge_block_loop s (i + 1) False acc"
proof -
  have "i + 1 < length s" using prefix_drop_length [OF assms(3)] by simp
  moreover have "take 2 (drop i s) = ''/*''"
    using assms by (simp add: take2_drop_next)
  ultimately show ?thesis using assms(1)
    by (subst purge_block_loop.simps) (simp only: if_True simp_thms)
qed

lemma loop_record:
  assumes "i < length s" and "\<not> (s ! i = CHR ''/'' \<and> prefix ''*'' (drop (Suc i) s))"
  shows "purge_block_loop s i True acc = purge_block_loop s (i + 1) True (acc @ [s ! i])"
proof -
  have "take 2 (drop i s) \<noteq> ''/*''"
    using assms by (simp only: take2_drop_next) simp
  then show ?thesis using assms(1)
    by (subst purge_block_loop.simps) (simp only: if_True if_False simp_thms)
qed

lemma loop_close:
  assumes "i < length s" and "0 < i" and "s ! (i - 1) = CHR ''*''" and "s ! i = CHR ''/''"
  shows "purge_block_loop s i False acc = purge_block_loop s (i + 1) True acc"
proof -
  have "take 2 (drop (i - 1) s) = ''*/''"
    using take2_drop_prev [OF assms(2,1), of "CHR ''*''" "CHR ''/''"] assms(3,4) by blast
  then show ?thesis using assms(1,2)
    by (subst purge_block_loop.simps) (simp only: if_True if_False simp_thms)
qed

lemma loop_skip:
  assumes "i < length s" and "\<not> (0 < i \<and> s ! (i - 1) = CHR ''*'' \<and> s ! i = CHR ''/'')"
  shows "purge_block_loop s i False acc = purge_block_loop s (i + 1) False acc"
proof (cases "0 < i")
  case True
  then have "take 2 (drop (i - 1) s) \<noteq> ''*/''"
    using assms by (simp only: take2_drop_prev) simp
  then show ?thesis using assms(1)
    by (subst purge_block_loop.simps) (simp only: if_True if_False simp_thms)
next
  case False
  then show ?thesis using assms(1)
    by (subst purge_block_loop.simps) (simp only: if_True if_False simp_thms)
qed


lemma purge_block_loop_rec:
  "i \<le> length s \<Longrightarrow> purge_block_loop s i True acc = acc @ rec_on (drop i s)"
  "i \<le> length s \<Longrightarrow> 0 < i \<Longrightarrow>
     purge_block_loop s i False acc = acc @ rec_off (s ! (i - 1)) (drop i s)"
proof (induction "length s - i" arbitrary: i acc)
  case 0
  {
    case 1
    with 0 show ?case by (simp add: loop_end)
  next
    case 2
    with 0 show ?case by (simp add: loop_end)
  }
next
  case (Suc k)
  have lt: "i < length s" using Suc.hyps(3) by simp
  have k: "k = length s - (i + 1)" and le: "i + 1 \<le> length s"
    using Suc.hyps(3) by simp_all
  have d: "drop i s = s ! i # drop (Suc i) s"
    using lt by (simp add: Cons_nth_drop_Suc)
  have ih_on: "purge_block_loop s (i + 1) True acc' = acc' @ rec_on (drop (Suc i) s)" for acc'
    using Suc.hyps(1) [OF k le, of acc'] by simp
  have ih_off: "purge_block_loop s (i + 1) False acc' = acc' @ rec_off (s ! i) (drop (Suc i) s)"
    for acc'
    using Suc.hyps(2) [OF k le, of acc'] by simp
  {
    case 1
    show ?case
    proof (cases "s ! i = CHR ''/'' \<and> prefix ''*'' (drop (Suc i) s)")
      case True
      then have "purge_block_loop s i True acc = purge_block_loop s (i + 1) False acc"
        using loop_open [OF lt] by blast
      also have "\<dots> = acc @ rec_off (s ! i) (drop (Suc i) s)" by (rule ih_off)
      also have "rec_off (s ! i) (drop (Suc i) s) = rec_on (drop i s)"
        using True by (simp add: d)
      finally show ?thesis .
    next
      case False
      have "purge_block_loop s i True acc = purge_block_loop s (i + 1) True (acc @ [s ! i])"
        using loop_record [OF lt False] .
      also have "\<dots> = (acc @ [s ! i]) @ rec_on (drop (Suc i) s)" by (rule ih_on)
      also have "\<dots> = acc @ rec_on (drop i s)"
        using False by (auto simp: d)
      finally show ?thesis .
    qed
  next
    case 2
    show ?case
    proof (cases "s ! (i - 1) = CHR ''*'' \<and> s ! i = CHR ''/''")
      case True
      then have "purge_block_loop s i False acc = purge_block_loop s (i + 1) True acc"
        using loop_close [OF lt 2(2)] by blast
      also have "\<dots> = acc @ rec_on (drop (Suc i) s)" by (rule ih_on)
      also have "rec_on (drop (Suc i) s) = rec_off (s ! (i - 1)) (drop i s)"
        using True by (simp add: d)
      finally show ?thesis .
    next
      case False
      then have "\<not> (0 < i \<and> s ! (i - 1) = CHR ''*'' \<and> s ! i = CHR ''/'')" by blast
      from loop_skip [OF lt this]
      have "purge_block_loop s i False acc = purge_block_loop s (i + 1) False acc" .
      also have "\<dots> = acc @ rec_off (s ! i) (drop (Suc i) s)" by (rule ih_off)
      also have "rec_off (s ! i) (drop (Suc i) s) = rec_off (s ! (i - 1)) (drop i s)"
        using False by (auto simp: d)
      finally show ?thesis .
    qed
  }
qed

lemma purge_comments_rec_on: "purge_comments t = rec_on (purge_line_comments t)"
  using purge_block_loop_rec(1) [of 0 "purge_line_comments t" "[]"]
  by (simp add: purge_comments_def)

subsection \<open>The lines of a text\<close>

lemma foldl_append_concat: "foldl (\<lambda>a l. a @ f l) acc ls = acc @ concat (map f ls)"
  by (induction ls arbitrary: acc) simp_all

lemma purge_line_comments_concat:
  "purge_line_comments t = concat (map purge_line (splitlines t))"
  by (simp add: purge_line_comments_def foldl_append_concat)

lemma splitlines_Nil: "splitlines [] = []"
  by (subst splitlines.simps) simp

lemma splitlines_single:
  assumes "s \<noteq> []" and "dropWhile (\<lambda>c. \<not> is_linebreak c) s = []"
  shows "splitlines s = [s]"
  by (subst splitlines.simps) (simp only: assms if_False list.case)

lemma splitlines_step:
  "dropWhile (\<lambda>c. \<not> is_linebreak c) s = c # rest \<Longrightarrow>
   splitlines s =
     takeWhile (\<lambda>c. \<not> is_linebreak c) s #
       splitlines (if c = CHR 0x0D \<and> take 1 rest = [CHR 0x0A] then drop 1 rest else rest)"
  by (subst splitlines.simps) auto

lemma dropWhile_split:
  assumes "dropWhile (\<lambda>c. \<not> is_linebreak c) s = c # rest"
  shows "s = takeWhile (\<lambda>c. \<not> is_linebreak c) s @ c # rest" and "is_linebreak c"
proof -
  show "s = takeWhile (\<lambda>c. \<not> is_linebreak c) s @ c # rest"
    using takeWhile_dropWhile_id [of "\<lambda>c. \<not> is_linebreak c" s] assms by simp
  show "is_linebreak c"
    using hd_dropWhile [of "\<lambda>c. \<not> is_linebreak c" s] assms by auto
qed

lemma splitlines_no_linebreak:
  "l \<in> set (splitlines s) \<Longrightarrow> c \<in> set l \<Longrightarrow> \<not> is_linebreak c"
proof (induction s arbitrary: l rule: splitlines.induct)
  case (1 s)
  show ?case
  proof (cases "s = []")
    case True
    with 1(2) show ?thesis by (simp add: splitlines_Nil)
  next
    case False
    show ?thesis
    proof (cases "dropWhile (\<lambda>c. \<not> is_linebreak c) s")
      case Nil
      with False 1(2) have "l = s" by (simp add: splitlines_single)
      moreover from Nil have "\<forall>x\<in>set s. \<not> is_linebreak x" by (simp add: dropWhile_eq_Nil_conv)
      ultimately show ?thesis using 1(3) by blast
    next
      case (Cons d rest)
      from 1(2) consider "l = takeWhile (\<lambda>c. \<not> is_linebreak c) s"
        | "l \<in> set (splitlines (if d = CHR 0x0D \<and> take 1 rest = [CHR 0x0A] then drop 1 rest else rest))"
        by (auto simp: splitlines_step [OF Cons])
      then show ?thesis
      proof cases
        case 1
        with \<open>c \<in> set l\<close> show ?thesis by (auto dest: set_takeWhileD)
      next
        case 2
        from "1.IH" [OF False Cons 2 \<open>c \<in> set l\<close>] show ?thesis .
      qed
    qed
  qed
qed

lemma splitlines_sublist: "l \<in> set (splitlines s) \<Longrightarrow> sublist l s"
proof (induction s arbitrary: l rule: splitlines.induct)
  case (1 s)
  show ?case
  proof (cases "s = []")
    case True
    with 1(2) show ?thesis by (simp add: splitlines_Nil)
  next
    case False
    show ?thesis
    proof (cases "dropWhile (\<lambda>c. \<not> is_linebreak c) s")
      case Nil
      with False 1(2) show ?thesis by (simp add: splitlines_single)
    next
      case (Cons d rest)
      let ?next = "if d = CHR 0x0D \<and> take 1 rest = [CHR 0x0A] then drop 1 rest else rest"
      from 1(2) consider "l = takeWhile (\<lambda>c. \<not> is_linebreak c) s" | "l \<in> set (splitlines ?next)"
        by (auto simp: splitlines_step [OF Cons])
      then show ?thesis
      proof cases
        case 1
        then show ?thesis by simp
      next
        case 2
        from "1.IH" [OF False Cons 2] have a: "sublist l ?next" .
        have "suffix ?next rest" by (simp add: suffix_drop)
        then have "suffix ?next (c # rest)" for c by (rule suffix_ConsI)
        then have "suffix ?next (takeWhile (\<lambda>c. \<not> is_linebreak c) s @ d # rest)"
          by (rule suffix_appendI)
        then have "suffix ?next s" using dropWhile_split(1) [OF Cons] by simp
        then have "sublist ?next s" by (rule suffix_imp_sublist)
        with a show ?thesis by (rule sublist_order.order.trans)
      qed
    qed
  qed
qed

lemma concat_lines_id:
  assumes "\<forall>c\<in>set s. is_linebreak c \<longrightarrow> c = CHR 0x0A"
  shows "concat (map (\<lambda>l. l @ [CHR 0x0A]) (splitlines s)) =
         (if s = [] \<or> last s = CHR 0x0A then s else s @ [CHR 0x0A])"
  using assms
proof (induction s rule: splitlines.induct)
  case (1 s)
  show ?case
  proof (cases "s = []")
    case True
    then show ?thesis by (simp add: splitlines_Nil)
  next
    case False
    show ?thesis
    proof (cases "dropWhile (\<lambda>c. \<not> is_linebreak c) s")
      case Nil
      then have "\<forall>x\<in>set s. \<not> is_linebreak x" by (simp add: dropWhile_eq_Nil_conv)
      moreover have "last s \<in> set s" using False by simp
      moreover have "is_linebreak (CHR 0x0A)" by (simp add: is_linebreak_def)
      ultimately have "last s \<noteq> CHR 0x0A" by metis
      with False Nil show ?thesis by (simp add: splitlines_single)
    next
      case (Cons d rest)
      note split = dropWhile_split [OF Cons]
      have "d \<in> set s" using split(1) by (metis in_set_conv_decomp)
      with split(2) 1(2) have d: "d = CHR 0x0A" by blast
      then have next_eq: "(if d = CHR 0x0D \<and> take 1 rest = [CHR 0x0A] then drop 1 rest else rest) = rest"
        by simp
      have "set rest \<subseteq> set s" using split(1) by (metis set_subset_Cons set_append le_supI2 set_ConsD subsetI Un_iff list.set_intros(2))
      with 1(2) have rest_ok: "\<forall>c\<in>set rest. is_linebreak c \<longrightarrow> c = CHR 0x0A" by blast
      from "1.IH" [OF False Cons] rest_ok next_eq
      have ih: "concat (map (\<lambda>l. l @ [CHR 0x0A]) (splitlines rest)) =
                (if rest = [] \<or> last rest = CHR 0x0A then rest else rest @ [CHR 0x0A])"
        by simp
      have "concat (map (\<lambda>l. l @ [CHR 0x0A]) (splitlines s)) =
            takeWhile (\<lambda>c. \<not> is_linebreak c) s @ [CHR 0x0A] @
              concat (map (\<lambda>l. l @ [CHR 0x0A]) (splitlines rest))"
        by (simp add: splitlines_step [OF Cons] d)
      also have "\<dots> = (takeWhile (\<lambda>c. \<not> is_linebreak c) s @ d # rest) @
                         (if rest = [] \<or> last rest = CHR 0x0A then [] else [CHR 0x0A])"
        by (simp add: ih d)
      also have "takeWhile (\<lambda>c. \<not> is_linebreak c) s @ d # rest = s"
        using split(1) by simp
      finally have eq: "concat (map (\<lambda>l. l @ [CHR 0x0A]) (splitlines s)) =
                    s @ (if rest = [] \<or> last rest = CHR 0x0A then [] else [CHR 0x0A])" .
      have "last s = (if rest = [] then CHR 0x0A else last rest)"
        by (subst split(1)) (simp add: d)
      with eq False show ?thesis by auto
    qed
  qed
qed

subsection \<open>Markers left by the two loops\<close>

lemma no_pair_append_sep:
  assumes "\<not> sublist [a, b] xs" and "\<not> sublist [a, b] ys" and "c \<noteq> a" and "c \<noteq> b"
  shows "\<not> sublist [a, b] (xs @ c # ys)"
  using assms(1)
proof (induction xs)
  case Nil
  with assms show ?case by (simp add: sublist_Cons_right)
next
  case (Cons x xs)
  from Cons.prems have noxs: "\<not> sublist [a, b] xs" and nopre: "\<not> prefix [a, b] (x # xs)"
    by (simp_all add: sublist_Cons_right)
  have "\<not> prefix [a, b] (x # xs @ c # ys)"
  proof (cases xs)
    case Nil
    with assms(4) show ?thesis by simp
  next
    case (Cons x' xs')
    with nopre show ?thesis by simp
  qed
  with Cons.IH [OF noxs] show ?case by (simp add: sublist_Cons_right)
qed

lemma no_pair_concat_sep:
  assumes "\<forall>l\<in>set ls. \<not> sublist [a, b] (f l)" and "c \<noteq> a" and "c \<noteq> b"
  shows "\<not> sublist [a, b] (concat (map (\<lambda>l. f l @ [c]) ls))"
  using assms(1)
proof (induction ls)
  case Nil
  show ?case by simp
next
  case (Cons l ls)
  then have "\<not> sublist [a, b] (f l)"
    and "\<not> sublist [a, b] (concat (map (\<lambda>l. f l @ [c]) ls))" by simp_all
  from no_pair_append_sep [OF this assms(2,3)] show ?case by simp
qed

lemma concat_sep_last:
  "concat (map (\<lambda>l. f l @ [c]) ls) = [] \<or> last (concat (map (\<lambda>l. f l @ [c]) ls)) = c"
  by (cases ls rule: rev_cases) simp_all

lemma concat_sep_set:
  "x \<in> set (concat (map (\<lambda>l. f l @ [c]) ls)) \<Longrightarrow> x = c \<or> (\<exists>l\<in>set ls. x \<in> set (f l))"
  by (auto split: if_splits)

lemma str_find_None_iff: "str_find s sub = None \<longleftrightarrow> \<not> sublist sub s"
  by (induction s) (auto simp: sublist_Cons_right)

lemma str_find_Some_take:
  "str_find s sub = Some pos \<Longrightarrow> sub \<noteq> [] \<Longrightarrow> \<not> sublist sub (take pos s)"
proof (induction s arbitrary: pos)
  case Nil
  then show ?case by simp
next
  case (Cons c cs)
  show ?case
  proof (cases "prefix sub (c # cs)")
    case True
    with Cons.prems show ?thesis by simp
  next
    case False
    with Cons.prems(1) obtain n where n: "str_find cs sub = Some n" and pos: "pos = Suc n"
      by auto
    have "prefix (c # take n cs) (c # cs)" by (simp add: take_is_prefix)
    with False have "\<not> prefix sub (c # take n cs)"
      using prefix_order.trans by blast
    with Cons.IH [OF n Cons.prems(2)] show ?thesis
      by (simp add: pos sublist_Cons_right)
  qed
qed

lemma purge_line_cases:
  "\<exists>p. purge_line l = p @ [CHR 0x0A] \<and> \<not> sublist ''//'' p \<and> set p \<subseteq> set l"
proof (cases "str_find l ''//''")
  case None
  then have "\<not> sublist ''//'' l" by (simp add: str_find_None_iff)
  with None show ?thesis by (simp add: purge_line_def)
next
  case (Some pos)
  then have "\<not> sublist ''//'' (take pos l)" by (rule str_find_Some_take) simp
  moreover have "set (take pos l) \<subseteq> set l" by (rule set_take_subset)
  ultimately show ?thesis using Some by (simp add: purge_line_def)
qed

lemma purge_line_no_marker: "\<not> sublist ''//'' l \<Longrightarrow> purge_line l = l @ [CHR 0x0A]"
  by (simp add: purge_line_def str_find_None_iff [symmetric])

lemma purge_line_body:
  "purge_line l = line_body l @ [CHR 0x0A]"
  "\<not> sublist ''//'' (line_body l)"
  "set (line_body l) \<subseteq> set l"
  using purge_line_cases [of l] by (auto simp: line_body_def)

lemma purge_line_comments_props:
  "\<not> sublist ''//'' (purge_line_comments t)"
  "c \<in> set (purge_line_comments t) \<Longrightarrow> is_linebreak c \<Longrightarrow> c = CHR 0x0A"
proof -
  have "map purge_line (splitlines t) = map (\<lambda>l. line_body l @ [CHR 0x0A]) (splitlines t)"
    by (rule map_cong [OF refl]) (rule purge_line_body(1))
  then have eq: "purge_line_comments t = concat (map (\<lambda>l. line_body l @ [CHR 0x0A]) (splitlines t))"
    unfolding purge_line_comments_concat by (rule arg_cong [where f = concat])
  show "\<not> sublist ''//'' (purge_line_comments t)"
    unfolding eq by (rule no_pair_concat_sep) (simp_all add: purge_line_body(2))
  show "c = CHR 0x0A" if "c \<in> set (purge_line_comments t)" and "is_linebreak c"
  proof -
    from that(1) consider "c = CHR 0x0A" | l where "l \<in> set (splitlines t)" "c \<in> set (line_body l)"
      unfolding eq using concat_sep_set [of c line_body "CHR 0x0A" "splitlines t"] by blast
    then show ?thesis
    proof cases
      case 1
      then show ?thesis .
    next
      case 2
      then have "c \<in> set l" using purge_line_body(3) by blast
      with 2(1) that(2) show ?thesis using splitlines_no_linebreak by blast
    qed
  qed
qed

lemma purge_comments_props:
  "\<not> sublist ''//'' (purge_comments t)"
  "\<not> sublist ''/*'' (purge_comments t)"
  "c \<in> set (purge_comments t) \<Longrightarrow> is_linebreak c \<Longrightarrow> c = CHR 0x0A"
proof -
  note m = rec_no_markers(1) [OF purge_line_comments_props(1), of t]
  show "\<not> sublist ''//'' (purge_comments t)" using m by (simp add: purge_comments_rec_on)
  show "\<not> sublist ''/*'' (purge_comments t)" using m by (simp add: purge_comments_rec_on)
  show "c = CHR 0x0A" if "c \<in> set (purge_comments t)" and "is_linebreak c"
  proof -
    from that(1) have "c \<in> set (purge_line_comments t)"
      using rec_set(1) by (auto simp: purge_comments_rec_on)
    then show ?thesis using that(2) by (rule purge_line_comments_props(2))
  qed
qed

lemma purge_comments_no_markers:
  assumes "\<not> sublist ''//'' t" and "\<not> sublist ''/*'' t"
  shows "purge_comments t = concat (map (\<lambda>l. l @ [CHR 0x0A]) (splitlines t))"
proof -
  have line: "\<not> sublist ''//'' l \<and> \<not> sublist ''/*'' l" if "l \<in> set (splitlines t)" for l
    using splitlines_sublist [OF that] assms sublist_order.order.trans by blast
  have "map purge_line (splitlines t) = map (\<lambda>l. l @ [CHR 0x0A]) (splitlines t)"
    by (rule map_cong [OF refl]) (simp add: line purge_line_no_marker)
  then have eq: "purge_line_comments t = concat (map (\<lambda>l. l @ [CHR 0x0A]) (splitlines t))"
    unfolding purge_line_comments_concat by (rule arg_cong [where f = concat])
  have "\<not> sublist ''/*'' (concat (map (\<lambda>l. l @ [CHR 0x0A]) (splitlines t)))"
    by (rule no_pair_concat_sep) (simp_all add: line)
  then show ?thesis
    by (simp add: purge_comments_rec_on eq rec_on_no_open)
qed

lemma purge_comments_clean:
  assumes "\<not> sublist ''//'' t" and "\<not> sublist ''/*'' t"
      and "\<forall>c\<in>set t. is_linebreak c \<longrightarrow> c = CHR 0x0A"
  shows "purge_comments t = (if t = [] \<or> last t = CHR 0x0A then t else t @ [CHR 0x0A])"
  using purge_comments_no_markers [OF assms(1,2)] concat_lines_id [OF assms(3)] by simp

subsection \<open>Texts without markers, and stripping twice\<close>

text \<open>
  C5, as the code behaves. On a text with no \<open>//\<close>, no \<open>/*\<close> and no \<open>*/\<close> the stripper
  returns the lines of the text, each followed by one line feed. That is the text itself
  exactly when the text is empty or ends with a line feed and has no line break other than
  the line feed (no carriage return, vertical tab, form feed, or separator character).
\<close>

theorem purge_comments_without_markers:
  assumes "\<not> sublist ''//'' T" and "\<not> sublist ''/*'' T" and "\<not> sublist ''*/'' T"
  shows "purge_comments T = concat (map (\<lambda>line. line @ [CHR 0x0A]) (splitlines T)) \<and>
         (purge_comments T = T \<longleftrightarrow>
            (T = [] \<or> last T = CHR 0x0A) \<and> (\<forall>c\<in>set T. is_linebreak c \<longrightarrow> c = CHR 0x0A))"
proof -
  let ?Y = "concat (map (\<lambda>line. line @ [CHR 0x0A]) (splitlines T))"
  have eq: "purge_comments T = ?Y"
    using assms(1,2) by (rule purge_comments_no_markers)
  have unchanged: "purge_comments T = T"
    if "T = [] \<or> last T = CHR 0x0A" and "\<forall>c\<in>set T. is_linebreak c \<longrightarrow> c = CHR 0x0A"
    using purge_comments_clean [OF assms(1,2) that(2)] that(1) by auto
  have forth1: "T = [] \<or> last T = CHR 0x0A" if "purge_comments T = T"
  proof -
    have y: "?Y = T" using eq that by simp
    have "?Y = [] \<or> last ?Y = CHR 0x0A"
      by (rule concat_sep_last [of "\<lambda>l. l" "CHR 0x0A" "splitlines T"])
    then show ?thesis unfolding y .
  qed
  have forth2: "\<forall>c\<in>set T. is_linebreak c \<longrightarrow> c = CHR 0x0A" if "purge_comments T = T"
  proof (intro ballI impI)
    fix c assume "c \<in> set T" and "is_linebreak c"
    then have "c \<in> set (purge_comments T)" using that by simp
    then show "c = CHR 0x0A" using \<open>is_linebreak c\<close> by (rule purge_comments_props(3))
  qed
  from eq unchanged forth1 forth2 show ?thesis by blast
qed

theorem purge_comments_without_markers_witness:
  "\<not> sublist ''//'' (''int x;'' @ [CHR 0x0A] @ ''int y;'' @ [CHR 0x0A]) \<and>
   \<not> sublist ''/*'' (''int x;'' @ [CHR 0x0A] @ ''int y;'' @ [CHR 0x0A]) \<and>
   \<not> sublist ''*/'' (''int x;'' @ [CHR 0x0A] @ ''int y;'' @ [CHR 0x0A]) \<and>
   purge_comments (''int x;'' @ [CHR 0x0A] @ ''int y;'' @ [CHR 0x0A]) =
     ''int x;'' @ [CHR 0x0A] @ ''int y;'' @ [CHR 0x0A]"
proof -
  let ?T = "''int x;'' @ [CHR 0x0A] @ ''int y;'' @ [CHR 0x0A]"
  have a: "\<not> sublist ''//'' ?T" by code_simp
  have b: "\<not> sublist ''/*'' ?T" by code_simp
  have c: "\<not> sublist ''*/'' ?T" by code_simp
  have d: "(?T = [] \<or> last ?T = CHR 0x0A) \<and> (\<forall>c\<in>set ?T. is_linebreak c \<longrightarrow> c = CHR 0x0A)"
    by (simp add: is_linebreak_def)
  from purge_comments_without_markers [OF a b c] d have "purge_comments ?T = ?T" by blast
  with a b c show ?thesis by blast
qed

text \<open>
  C5, as the claim states it, fails: the text \<open>abc\<close> has no comment marker, and the
  stripper returns it with a line feed appended.
\<close>

theorem purge_comments_appends_line_feed:
  "\<not> sublist ''//'' ''abc'' \<and> \<not> sublist ''/*'' ''abc'' \<and> \<not> sublist ''*/'' ''abc'' \<and>
   purge_comments ''abc'' = ''abc'' @ [CHR 0x0A] \<and>
   purge_comments ''abc'' \<noteq> ''abc''"
  by code_simp

text \<open>
  C4, as the code behaves. Stripping the stripped text again returns it unchanged when it is
  empty or ends with a line feed, and returns it with one line feed appended otherwise; so
  stripping twice equals stripping once exactly when the once-stripped text is empty or ends
  with a line feed.
\<close>

theorem purge_comments_twice:
  "purge_comments (purge_comments T) =
     (if purge_comments T = [] \<or> last (purge_comments T) = CHR 0x0A then purge_comments T
      else purge_comments T @ [CHR 0x0A]) \<and>
   (purge_comments (purge_comments T) = purge_comments T \<longleftrightarrow>
      purge_comments T = [] \<or> last (purge_comments T) = CHR 0x0A)"
proof -
  have lb: "\<forall>c\<in>set (purge_comments T). is_linebreak c \<longrightarrow> c = CHR 0x0A"
    using purge_comments_props(3) by blast
  from purge_comments_clean [OF purge_comments_props(1) purge_comments_props(2) lb]
  have eq: "purge_comments (purge_comments T) =
     (if purge_comments T = [] \<or> last (purge_comments T) = CHR 0x0A then purge_comments T
      else purge_comments T @ [CHR 0x0A])" .
  then show ?thesis by auto
qed

theorem purge_comments_twice_witness:
  "purge_comments (''a // c'' @ [CHR 0x0A] @ ''b /* d */ e'' @ [CHR 0x0A]) =
     ''a '' @ [CHR 0x0A] @ ''b  e'' @ [CHR 0x0A] \<and>
   purge_comments (purge_comments (''a // c'' @ [CHR 0x0A] @ ''b /* d */ e'' @ [CHR 0x0A])) =
     purge_comments (''a // c'' @ [CHR 0x0A] @ ''b /* d */ e'' @ [CHR 0x0A])"
proof -
  let ?T = "''a // c'' @ [CHR 0x0A] @ ''b /* d */ e'' @ [CHR 0x0A]"
  have e: "purge_comments ?T = ''a '' @ [CHR 0x0A] @ ''b  e'' @ [CHR 0x0A]" by code_simp
  then have "purge_comments ?T = [] \<or> last (purge_comments ?T) = CHR 0x0A" by simp
  with purge_comments_twice [of ?T]
  have "purge_comments (purge_comments ?T) = purge_comments ?T" by blast
  with e show ?thesis by blast
qed

text \<open>
  C4, as the claim states it, fails: in \<open>a/*b\<close> the block comment is never closed and
  takes the line feed of the first loop with it, so the first pass returns \<open>a\<close> and the
  second pass returns \<open>a\<close> followed by a line feed.
\<close>

theorem purge_comments_not_idempotent:
  "purge_comments ''a/*b'' = ''a'' \<and>
   purge_comments (purge_comments ''a/*b'') = ''a'' @ [CHR 0x0A] \<and>
   purge_comments (purge_comments ''a/*b'') \<noteq> purge_comments ''a/*b''"
  by code_simp

section \<open>The API declaration detector\<close>

text \<open>
  C1 at a concrete file. In the text \<open>url_in_block_comment\<close> the name
  \<open>Foo::get_api_definition\<close> occurs once, at index 24, in the definition on the second line
  and outside every comment. The first loop of the stripper cuts the first line at the
  \<open>//\<close> inside its block comment and so removes the closing \<open>*/\<close>; the second loop then
  never finds the end of the comment and drops the rest of the file. The stripped text is
  empty and the detector returns false.
\<close>

theorem has_api_definition_misses_definition:
  "spec_occurrences ''Foo::get_api_definition'' url_in_block_comment = [24] \<and>
   list_all (\<lambda>b. \<not> b)
     (take (length ''Foo::get_api_definition'')
        (drop 24 (spec_comment_mask InCode url_in_block_comment))) \<and>
   \<not> spec_every_occurrence_in_comment ''Foo::get_api_definition'' url_in_block_comment \<and>
   purge_line_comments url_in_block_comment =
     ''/* see http:'' @ [CHR 0x0A] @ ''void Foo::get_api_definition() {}'' @ [CHR 0x0A] \<and>
   purge_comments url_in_block_comment = [] \<and>
   \<not> has_api_definition ''Foo.cc'' url_in_block_comment"
  by code_simp

text \<open>
  C1 at a second file, for the other direction. In the text \<open>commented_then_spliced\<close> the
  name occurs once, at index 3, inside a line comment, and the detector still returns true:
  removing the empty block comment of the second line, with nothing put in its place, puts
  the name together there.
\<close>

theorem has_api_definition_spliced_occurrence:
  "spec_occurrences ''Foo::get_api_definition'' commented_then_spliced = [3] \<and>
   spec_every_occurrence_in_comment ''Foo::get_api_definition'' commented_then_spliced \<and>
   has_api_definition ''Foo.cc'' commented_then_spliced"
  by code_simp

section \<open>The dependency reader on concrete files\<close>

text \<open>
  C7, as the code behaves. On the dependency file with the text \<open># comment\<close>, a line
  feed, \<open>libA libB\<close>, the reader returns the three tokens \<open>comment\<close>, \<open>libA\<close>, \<open>libB\<close>:
  the comment marker is tested on each whitespace-separated token, so only the token \<open>#\<close>
  itself is dropped and the word after it stays.
\<close>

theorem dependency_reader_example:
  "get_library_dependencies
     (Dir [(''link_dependencies.txt'', File (''# comment'' @ [CHR 0x0A] @ ''libA libB''))])
   = Inr [''comment'', ''libA'', ''libB'']"
  by code_simp

text \<open>
  C7, as the claim states it, fails: on that file the reader does not return the
  two-element sequence \<open>libA\<close>, \<open>libB\<close>.
\<close>

theorem dependency_reader_example_not_two:
  "get_library_dependencies
     (Dir [(''link_dependencies.txt'', File (''# comment'' @ [CHR 0x0A] @ ''libA libB''))])
   \<noteq> Inr [''libA'', ''libB'']"
  by code_simp

text \<open>
  C6 at a concrete file. On the dependency file with the text \<open>#a #b x\<close> the reader
  returns \<open>#b\<close> and \<open>x\<close>: removing \<open>#a\<close> while the loop runs over the same list moves
  \<open>#b\<close> to the index already visited, so it is never tested and stays in the result.
\<close>

theorem dependency_reader_keeps_comment_token:
  "get_library_dependencies (Dir [(''link_dependencies.txt'', File ''#a #b x'')])
   = Inr [''#b'', ''x'']"
  by code_simp

end
